theory Spec2Isabelle
  imports Complex_Main
begin

section \<open>Text\<close>

text \<open>
  Text is an Isabelle \<open>string\<close>. The strings that code under test handles are taken to be
  ASCII, one \<open>char\<close> per UTF-16 code unit. The only non-ASCII character the program itself
  writes is U+2026 (horizontal ellipsis); it is written here as the three bytes of its UTF-8
  encoding.
\<close>

definition ellipsis :: string where
  "ellipsis = [CHR 0xE2, CHR 0x80, CHR 0xA6]"

text \<open>The digit of a number below 16, as decimal and hexadecimal notation write it.\<close>

definition digit :: "nat \<Rightarrow> char" where
  "digit n = ''0123456789abcdef'' ! (n mod 16)"

text \<open>\<open>String(n)\<close> for a non-negative integer: its decimal digits.\<close>

function decimal :: "nat \<Rightarrow> string" where
  "decimal n = (if n < 10 then [digit n] else decimal (n div 10) @ [digit (n mod 10)])"
  by pat_completeness auto
termination
  by (relation "measure (\<lambda>n. n)") auto

declare decimal.simps [simp del]

definition intText :: "int \<Rightarrow> string" where
  "intText i = (if i < 0 then ''-'' @ decimal (nat (- i)) else decimal (nat i))"

text \<open>\<open>parts.join(sep)\<close>.\<close>

fun join :: "string \<Rightarrow> string list \<Rightarrow> string" where
  "join sep [] = []"
| "join sep [x] = x"
| "join sep (x # y # ys) = x @ sep @ join sep (y # ys)"

text \<open>
  \<open>JSON.stringify(s)\<close> for a string \<open>s\<close>: the text in double quotes, with the quote, the
  backslash and the control characters escaped.
\<close>

definition escapeChar :: "char \<Rightarrow> string" where
  "escapeChar c =
     (let n = (of_char c :: nat) in
      if n = 0x22 then [CHR 0x5C, CHR 0x22]
      else if n = 0x5C then [CHR 0x5C, CHR 0x5C]
      else if n = 8 then [CHR 0x5C, CHR ''b'']
      else if n = 9 then [CHR 0x5C, CHR ''t'']
      else if n = 10 then [CHR 0x5C, CHR ''n'']
      else if n = 12 then [CHR 0x5C, CHR ''f'']
      else if n = 13 then [CHR 0x5C, CHR ''r'']
      else if n < 0x20 then [CHR 0x5C, CHR ''u'', CHR ''0'', CHR ''0'', digit (n div 16), digit (n mod 16)]
      else [c])"

definition JSON_stringify :: "string \<Rightarrow> string" where
  "JSON_stringify s = [CHR 0x22] @ concat (map escapeChar s) @ [CHR 0x22]"

section \<open>Values\<close>

text \<open>
  Objects live in a heap and are referred to by address, so that two places can hold the
  same object and an object can contain itself. Every address holds an object.
\<close>

type_synonym ref = nat

text \<open>
  A number is an integer-valued double whose \<open>String\<close> is its decimal digits (\<open>IntNum\<close>), or
  any other double (\<open>OtherNum\<close>), given by the text \<open>String\<close> returns for it (\<open>NaN\<close>, \<open>Infinity\<close>,
  \<open>0.5\<close>, \<open>1e+21\<close>): the conversion of a double to text is not modelled.
\<close>

datatype number = IntNum int | OtherNum string

text \<open>
  \<open>VSymbol d\<close> is a symbol of description \<open>d\<close>. \<open>VOther\<close> stands for a value whose
  \<open>typeof\<close> is none of the eight results of the language, the only kind of value that
  reaches the last statement of \<open>formatValue\<close>; it carries what \<open>String(val)\<close> returns,
  \<open>None\<close> when that conversion throws.
\<close>

datatype jsval =
    VNull
  | VUndefined
  | VString string
  | VNumber number
  | VBool bool
  | VBigInt int
  | VSymbol string
  | VRef ref
  | VOther "string option"

text \<open>
  Reading a property \<open>val[k]\<close> either yields a value (a data property, or a getter that
  returns) or throws (a getter that throws).
\<close>

datatype completion = Normal jsval | Throw jsval

text \<open>
  The objects, by the tag \<open>typeOf\<close> computes for them.
  \<^item> \<open>Function name\<close>: a callable of that \<open>name\<close>.
  \<^item> \<open>Date iso\<close>: \<open>iso\<close> is the text of \<open>toISOString()\<close>, \<open>None\<close> for an invalid date.
  \<^item> \<open>RegExp text\<close>: \<open>text\<close> is what \<open>toString()\<close> returns.
  \<^item> \<open>Error name message stack\<close>: \<open>stack\<close> is empty when the error has none.
  \<^item> \<open>ArrayLike pre elems\<close>: an object whose tag is \<open>pre\<close> followed by \<open>Array\<close>
    (\<open>Array\<close> itself, \<open>Uint8Array\<close>, ...), without holes.
  \<^item> \<open>MapObj entries\<close>, \<open>SetObj members\<close>: in iteration order.
  \<^item> \<open>Object props\<close>: any other object, with its own enumerable string-keyed
    properties in the order of \<open>Object.keys\<close>.

  The objects on which an operation of the formatter itself throws, each with the value
  thrown (as a rule a \<open>TypeError\<close> that the engine creates).
  \<^item> \<open>BrokenFunction e\<close>: a function whose \<open>name\<close> is a Symbol: the template of line 17
    throws.
  \<^item> \<open>Unprintable e\<close>: an object, not callable, on which a statement of lines 20 to 22
    throws: an error whose \<open>name\<close> or \<open>message\<close> is a Symbol, an object that carries the
    tag \<open>Date\<close> and has no \<open>toISOString\<close>.
  \<^item> \<open>BrokenArray pre len e\<close>: an object whose tag is \<open>pre\<close> followed by \<open>Array\<close> and
    whose \<open>slice\<close> throws: a typed array whose buffer is detached, an object that only
    carries the tag. \<open>len\<close> is the text of \<open>val.length\<close>.
  \<^item> \<open>BrokenMap e\<close>, \<open>BrokenSet e\<close>: an object that only carries the tag \<open>Map\<close> or
    \<open>Set\<close>: the \<open>for ... of\<close> throws.
  \<^item> \<open>Revoked e\<close>: a revoked Proxy: \<open>typeOf\<close> throws, as does every other operation
    on it.
\<close>

datatype obj =
    Function string
  | Date "string option"
  | RegExp string
  | Error string string string
  | ArrayBuffer nat
  | ArrayLike string "jsval list"
  | MapObj "(jsval \<times> jsval) list"
  | SetObj "jsval list"
  | Promise
  | DataView nat
  | Object "(string \<times> completion) list"
  | BrokenFunction jsval
  | Unprintable jsval
  | BrokenArray string string jsval
  | BrokenMap jsval
  | BrokenSet jsval
  | Revoked jsval

type_synonym heap = "ref \<Rightarrow> obj"

text \<open>The result of a call that can throw: \<open>Inl e\<close> when it throws \<open>e\<close>.\<close>

type_synonym 'a result = "jsval + 'a"

definition numberText :: "number \<Rightarrow> string" where
  "numberText n = (case n of IntNum i \<Rightarrow> intText i | OtherNum s \<Rightarrow> s)"

section \<open>The formatter\<close>

text \<open>
  \<open>formatValue(val, depth, seen)\<close> of \<open>worker.js\<close>. The \<open>WeakSet\<close> \<open>seen\<close> is mutated by
  the calls, so it is passed in and returned. \<open>formatAll\<close> is the \<open>map\<close> over the elements
  of an array and over the property reads of an object; \<open>formatMapLoop\<close> and
  \<open>formatSetLoop\<close> are the two \<open>for ... of\<close> loops with their counter \<open>i\<close> and their
  list \<open>parts\<close>. The three take the depth of the members, \<open>depth + 1\<close>. A value thrown
  leaves every enclosing call: no call has a \<open>try\<close> around its members, and the only
  \<open>try\<close> of the function is around the last \<open>String(val)\<close>.
\<close>

function formatValue :: "heap \<Rightarrow> jsval \<Rightarrow> nat \<Rightarrow> ref set \<Rightarrow> (string \<times> ref set) result"
  and formatAll :: "heap \<Rightarrow> completion list \<Rightarrow> nat \<Rightarrow> ref set \<Rightarrow> (string list \<times> ref set) result"
  and formatMapLoop ::
    "heap \<Rightarrow> (jsval \<times> jsval) list \<Rightarrow> nat \<Rightarrow> ref set \<Rightarrow> nat \<Rightarrow> string list \<Rightarrow> (string list \<times> ref set) result"
  and formatSetLoop ::
    "heap \<Rightarrow> jsval list \<Rightarrow> nat \<Rightarrow> ref set \<Rightarrow> nat \<Rightarrow> string list \<Rightarrow> (string list \<times> ref set) result"
where
  "formatValue h VNull depth seen = Inr (''null'', seen)"
| "formatValue h VUndefined depth seen = Inr (''undefined'', seen)"
| "formatValue h (VString s) depth seen = Inr (JSON_stringify s, seen)"
| "formatValue h (VNumber n) depth seen = Inr (numberText n, seen)"
| "formatValue h (VBool b) depth seen = Inr (if b then ''true'' else ''false'', seen)"
| "formatValue h (VBigInt i) depth seen = Inr (intText i, seen)"
| "formatValue h (VSymbol d) depth seen = Inr (''Symbol('' @ d @ '')'', seen)"
| "formatValue h (VOther s) depth seen =
     (case s of Some t \<Rightarrow> Inr (t, seen) | None \<Rightarrow> Inr (''[Unserializable]'', seen))"
| "formatValue h (VRef r) depth seen =
     (case h r of
        Function name \<Rightarrow>
          Inr (''[Function '' @ (if name = [] then ''anonymous'' else name) @ '']'', seen)
      | Date d \<Rightarrow>
          Inr (''Date('' @ (case d of None \<Rightarrow> ''Invalid'' | Some t \<Rightarrow> t) @ '')'', seen)
      | RegExp t \<Rightarrow> Inr (t, seen)
      | Error name message stack \<Rightarrow> Inr (name @ '': '' @ message @ [CHR 0x0A] @ stack, seen)
      | ArrayBuffer n \<Rightarrow> Inr (''ArrayBuffer('' @ decimal n @ '')'', seen)
      | ArrayLike pre xs \<Rightarrow>
          (if depth > 2
           then Inr (pre @ ''Array('' @ decimal (length xs) @ '') ['' @ ellipsis @ '']'', seen)
           else
             (case formatAll h (map Normal (take 50 xs)) (depth + 1) seen of
                Inl e \<Rightarrow> Inl e
              | Inr (parts, seen') \<Rightarrow>
                  Inr (pre @ ''Array('' @ decimal (length xs) @ '') ['' @ join '', '' parts
                         @ (if length xs > 50 then '', '' @ ellipsis else []) @ '']'', seen')))
      | MapObj es \<Rightarrow>
          (if r \<in> seen then Inr (''[Circular Map]'', seen)
           else if depth > 2 then Inr (''Map('' @ ellipsis @ '')'', insert r seen)
           else
             (case formatMapLoop h es (depth + 1) (insert r seen) 0 [] of
                Inl e \<Rightarrow> Inl e
              | Inr (parts, seen') \<Rightarrow>
                  Inr (''Map('' @ decimal (length es) @ '') { '' @ join '', '' parts @ '' }'', seen')))
      | SetObj xs \<Rightarrow>
          (if r \<in> seen then Inr (''[Circular Set]'', seen)
           else if depth > 2 then Inr (''Set('' @ ellipsis @ '')'', insert r seen)
           else
             (case formatSetLoop h xs (depth + 1) (insert r seen) 0 [] of
                Inl e \<Rightarrow> Inl e
              | Inr (parts, seen') \<Rightarrow>
                  Inr (''Set('' @ decimal (length xs) @ '') { '' @ join '', '' parts @ '' }'', seen')))
      | Promise \<Rightarrow> Inr (''[Promise]'', seen)
      | DataView n \<Rightarrow> Inr (''DataView('' @ decimal n @ '')'', seen)
      | Object props \<Rightarrow>
          (if r \<in> seen then Inr (''[Circular]'', seen)
           else if depth > 2 then Inr (''{'' @ ellipsis @ ''}'', insert r seen)
           else
             (case formatAll h (map snd (take 50 props)) (depth + 1) (insert r seen) of
                Inl e \<Rightarrow> Inl e
              | Inr (texts, seen') \<Rightarrow>
                  Inr (''{ '' @ join '', ''
                         (map2 (\<lambda>k t. JSON_stringify k @ '': '' @ t) (map fst (take 50 props)) texts
                          @ (if length props > 50 then [ellipsis] else [])) @ '' }'', seen')))
      | BrokenFunction e \<Rightarrow> Inl e
      | Unprintable e \<Rightarrow> Inl e
      | BrokenArray pre len e \<Rightarrow>
          (if depth > 2 then Inr (pre @ ''Array('' @ len @ '') ['' @ ellipsis @ '']'', seen)
           else Inl e)
      | BrokenMap e \<Rightarrow>
          (if r \<in> seen then Inr (''[Circular Map]'', seen)
           else if depth > 2 then Inr (''Map('' @ ellipsis @ '')'', insert r seen)
           else Inl e)
      | BrokenSet e \<Rightarrow>
          (if r \<in> seen then Inr (''[Circular Set]'', seen)
           else if depth > 2 then Inr (''Set('' @ ellipsis @ '')'', insert r seen)
           else Inl e)
      | Revoked e \<Rightarrow> Inl e)"
| "formatAll h [] depth seen = Inr ([], seen)"
| "formatAll h (c # cs) depth seen =
     (case c of
        Throw e \<Rightarrow> Inl e
      | Normal v \<Rightarrow>
          (case formatValue h v depth seen of
             Inl e \<Rightarrow> Inl e
           | Inr (t, seen1) \<Rightarrow>
               (case formatAll h cs depth seen1 of
                  Inl e \<Rightarrow> Inl e
                | Inr (ts, seen2) \<Rightarrow> Inr (t # ts, seen2))))"
| "formatMapLoop h [] depth seen i parts = Inr (parts, seen)"
| "formatMapLoop h (kv # rest) depth seen i parts =
     (case formatValue h (fst kv) depth seen of
        Inl e \<Rightarrow> Inl e
      | Inr (tk, seen1) \<Rightarrow>
          (case formatValue h (snd kv) depth seen1 of
             Inl e \<Rightarrow> Inl e
           | Inr (tv, seen2) \<Rightarrow>
               (if i + 1 > 50 then Inr (parts @ [tk @ '' => '' @ tv] @ [ellipsis], seen2)
                else formatMapLoop h rest depth seen2 (i + 1) (parts @ [tk @ '' => '' @ tv]))))"
| "formatSetLoop h [] depth seen i parts = Inr (parts, seen)"
| "formatSetLoop h (v # rest) depth seen i parts =
     (case formatValue h v depth seen of
        Inl e \<Rightarrow> Inl e
      | Inr (t, seen1) \<Rightarrow>
          (if i + 1 > 50 then Inr (parts @ [t] @ [ellipsis], seen1)
           else formatSetLoop h rest depth seen1 (i + 1) (parts @ [t])))"
  by pat_completeness auto
termination
  by (relation "measures
        [\<lambda>x. case x of
            Inl (Inl (h, v, d, s)) \<Rightarrow> 2 * (4 - d)
          | Inl (Inr (h, cs, d, s)) \<Rightarrow> 2 * (4 - d) + 1
          | Inr (Inl (h, es, d, s, i, p)) \<Rightarrow> 2 * (4 - d) + 1
          | Inr (Inr (h, vs, d, s, i, p)) \<Rightarrow> 2 * (4 - d) + 1,
         \<lambda>x. case x of
            Inl (Inl (h, v, d, s)) \<Rightarrow> 0
          | Inl (Inr (h, cs, d, s)) \<Rightarrow> length cs
          | Inr (Inl (h, es, d, s, i, p)) \<Rightarrow> length es
          | Inr (Inr (h, vs, d, s, i, p)) \<Rightarrow> length vs]")
     auto

section \<open>The structure of what the formatter writes\<close>

text \<open>
  The text that \<open>formatValue\<close> returns, kept with its structure: a composite whose members
  were formatted is \<open>Expanded\<close>, with the texts of its members inside; a composite written
  as a placeholder because of the depth is \<open>Collapsed\<close>; a Map, a Set or a generic object
  written as its circular-reference marker is \<open>Circular\<close>. The three carry the address
  of the object. \<open>flatten\<close> gives the text back.
\<close>

datatype render =
    Txt string
  | Seq "render list"
  | Expanded ref render
  | Collapsed ref string
  | Circular ref string

primrec flatten :: "render \<Rightarrow> string" where
  "flatten (Txt t) = t"
| "flatten (Seq rs) = concat (map flatten rs)"
| "flatten (Expanded r body) = flatten body"
| "flatten (Collapsed r t) = t"
| "flatten (Circular r t) = t"

text \<open>The number of nested levels of composite expansion.\<close>

primrec levels :: "render \<Rightarrow> nat" where
  "levels (Txt t) = 0"
| "levels (Seq rs) = foldr max (map levels rs) 0"
| "levels (Expanded r body) = Suc (levels body)"
| "levels (Collapsed r t) = 0"
| "levels (Circular r t) = 0"

text \<open>
  The calls of the formatter on composite values, in the order of the text: the address
  of the object, and whether the call entered it (expanded or collapsed) or wrote its
  circular-reference marker.
\<close>

datatype mark = Entered | Marked

primrec visits :: "render \<Rightarrow> (ref \<times> mark) list" where
  "visits (Txt t) = []"
| "visits (Seq rs) = concat (map visits rs)"
| "visits (Expanded r body) = (r, Entered) # visits body"
| "visits (Collapsed r t) = [(r, Entered)]"
| "visits (Circular r t) = [(r, Marked)]"

text \<open>\<open>parts.join(sep)\<close> on structured parts.\<close>

fun between :: "render \<Rightarrow> render list \<Rightarrow> render list" where
  "between sep [] = []"
| "between sep [x] = [x]"
| "between sep (x # y # ys) = x # sep # between sep (y # ys)"

text \<open>The result of a call, with the structure turned into text.\<close>

definition textOf :: "(render \<times> ref set) result \<Rightarrow> (string \<times> ref set) result" where
  "textOf res = (case res of Inl e \<Rightarrow> Inl e | Inr (rt, seen) \<Rightarrow> Inr (flatten rt, seen))"

definition textsOf :: "(render list \<times> ref set) result \<Rightarrow> (string list \<times> ref set) result" where
  "textsOf res = (case res of Inl e \<Rightarrow> Inl e | Inr (rts, seen) \<Rightarrow> Inr (map flatten rts, seen))"

text \<open>
  \<open>formatValue\<close> again, returning the structure instead of the text. A value that is not
  a composite is a leaf, with the text \<open>formatValue\<close> returns for it.
\<close>

function formatTree :: "heap \<Rightarrow> jsval \<Rightarrow> nat \<Rightarrow> ref set \<Rightarrow> (render \<times> ref set) result"
  and formatTreeAll :: "heap \<Rightarrow> completion list \<Rightarrow> nat \<Rightarrow> ref set \<Rightarrow> (render list \<times> ref set) result"
  and formatTreeMap ::
    "heap \<Rightarrow> (jsval \<times> jsval) list \<Rightarrow> nat \<Rightarrow> ref set \<Rightarrow> nat \<Rightarrow> render list \<Rightarrow> (render list \<times> ref set) result"
  and formatTreeSet ::
    "heap \<Rightarrow> jsval list \<Rightarrow> nat \<Rightarrow> ref set \<Rightarrow> nat \<Rightarrow> render list \<Rightarrow> (render list \<times> ref set) result"
where
  "formatTree h v depth seen =
     (case v of
        VRef r \<Rightarrow>
          (case h r of
             ArrayLike pre xs \<Rightarrow>
               (if depth > 2
                then Inr (Collapsed r (pre @ ''Array('' @ decimal (length xs) @ '') ['' @ ellipsis @ '']''), seen)
                else
                  (case formatTreeAll h (map Normal (take 50 xs)) (depth + 1) seen of
                     Inl e \<Rightarrow> Inl e
                   | Inr (parts, seen') \<Rightarrow>
                       Inr (Expanded r (Seq
                              ([Txt (pre @ ''Array('' @ decimal (length xs) @ '') ['')]
                               @ between (Txt '', '') parts
                               @ [Txt ((if length xs > 50 then '', '' @ ellipsis else []) @ '']'')])), seen')))
           | MapObj es \<Rightarrow>
               (if r \<in> seen then Inr (Circular r ''[Circular Map]'', seen)
                else if depth > 2 then Inr (Collapsed r (''Map('' @ ellipsis @ '')''), insert r seen)
                else
                  (case formatTreeMap h es (depth + 1) (insert r seen) 0 [] of
                     Inl e \<Rightarrow> Inl e
                   | Inr (parts, seen') \<Rightarrow>
                       Inr (Expanded r (Seq
                              ([Txt (''Map('' @ decimal (length es) @ '') { '')]
                               @ between (Txt '', '') parts @ [Txt '' }''])), seen')))
           | SetObj xs \<Rightarrow>
               (if r \<in> seen then Inr (Circular r ''[Circular Set]'', seen)
                else if depth > 2 then Inr (Collapsed r (''Set('' @ ellipsis @ '')''), insert r seen)
                else
                  (case formatTreeSet h xs (depth + 1) (insert r seen) 0 [] of
                     Inl e \<Rightarrow> Inl e
                   | Inr (parts, seen') \<Rightarrow>
                       Inr (Expanded r (Seq
                              ([Txt (''Set('' @ decimal (length xs) @ '') { '')]
                               @ between (Txt '', '') parts @ [Txt '' }''])), seen')))
           | Object props \<Rightarrow>
               (if r \<in> seen then Inr (Circular r ''[Circular]'', seen)
                else if depth > 2 then Inr (Collapsed r (''{'' @ ellipsis @ ''}''), insert r seen)
                else
                  (case formatTreeAll h (map snd (take 50 props)) (depth + 1) (insert r seen) of
                     Inl e \<Rightarrow> Inl e
                   | Inr (members, seen') \<Rightarrow>
                       Inr (Expanded r (Seq
                              ([Txt ''{ '']
                               @ between (Txt '', '')
                                   (map2 (\<lambda>k m. Seq [Txt (JSON_stringify k @ '': ''), m])
                                      (map fst (take 50 props)) members
                                    @ (if length props > 50 then [Txt ellipsis] else []))
                               @ [Txt '' }''])), seen')))
           | BrokenArray pre len e \<Rightarrow>
               (if depth > 2
                then Inr (Collapsed r (pre @ ''Array('' @ len @ '') ['' @ ellipsis @ '']''), seen)
                else Inl e)
           | BrokenMap e \<Rightarrow>
               (if r \<in> seen then Inr (Circular r ''[Circular Map]'', seen)
                else if depth > 2 then Inr (Collapsed r (''Map('' @ ellipsis @ '')''), insert r seen)
                else Inl e)
           | BrokenSet e \<Rightarrow>
               (if r \<in> seen then Inr (Circular r ''[Circular Set]'', seen)
                else if depth > 2 then Inr (Collapsed r (''Set('' @ ellipsis @ '')''), insert r seen)
                else Inl e)
           | _ \<Rightarrow>
               (case formatValue h v depth seen of
                  Inl e \<Rightarrow> Inl e
                | Inr (t, seen') \<Rightarrow> Inr (Txt t, seen')))
      | _ \<Rightarrow>
          (case formatValue h v depth seen of
             Inl e \<Rightarrow> Inl e
           | Inr (t, seen') \<Rightarrow> Inr (Txt t, seen')))"
| "formatTreeAll h [] depth seen = Inr ([], seen)"
| "formatTreeAll h (c # cs) depth seen =
     (case c of
        Throw e \<Rightarrow> Inl e
      | Normal v \<Rightarrow>
          (case formatTree h v depth seen of
             Inl e \<Rightarrow> Inl e
           | Inr (t, seen1) \<Rightarrow>
               (case formatTreeAll h cs depth seen1 of
                  Inl e \<Rightarrow> Inl e
                | Inr (ts, seen2) \<Rightarrow> Inr (t # ts, seen2))))"
| "formatTreeMap h [] depth seen i parts = Inr (parts, seen)"
| "formatTreeMap h (kv # rest) depth seen i parts =
     (case formatTree h (fst kv) depth seen of
        Inl e \<Rightarrow> Inl e
      | Inr (tk, seen1) \<Rightarrow>
          (case formatTree h (snd kv) depth seen1 of
             Inl e \<Rightarrow> Inl e
           | Inr (tv, seen2) \<Rightarrow>
               (if i + 1 > 50
                then Inr (parts @ [Seq [tk, Txt '' => '', tv]] @ [Txt ellipsis], seen2)
                else formatTreeMap h rest depth seen2 (i + 1) (parts @ [Seq [tk, Txt '' => '', tv]]))))"
| "formatTreeSet h [] depth seen i parts = Inr (parts, seen)"
| "formatTreeSet h (v # rest) depth seen i parts =
     (case formatTree h v depth seen of
        Inl e \<Rightarrow> Inl e
      | Inr (t, seen1) \<Rightarrow>
          (if i + 1 > 50 then Inr (parts @ [t] @ [Txt ellipsis], seen1)
           else formatTreeSet h rest depth seen1 (i + 1) (parts @ [t])))"
  by pat_completeness auto
termination
  by (relation "measures
        [\<lambda>x. case x of
            Inl (Inl (h, v, d, s)) \<Rightarrow> 2 * (4 - d)
          | Inl (Inr (h, cs, d, s)) \<Rightarrow> 2 * (4 - d) + 1
          | Inr (Inl (h, es, d, s, i, p)) \<Rightarrow> 2 * (4 - d) + 1
          | Inr (Inr (h, vs, d, s, i, p)) \<Rightarrow> 2 * (4 - d) + 1,
         \<lambda>x. case x of
            Inl (Inl (h, v, d, s)) \<Rightarrow> 0
          | Inl (Inr (h, cs, d, s)) \<Rightarrow> length cs
          | Inr (Inl (h, es, d, s, i, p)) \<Rightarrow> length es
          | Inr (Inr (h, vs, d, s, i, p)) \<Rightarrow> length vs]")
     auto

declare formatTree.simps [simp del]

section \<open>Messages from the worker to the page\<close>

text \<open>
  \<open>send(type, payload)\<close> posts one message; \<open>ts\<close> is \<open>Date.now()\<close>, a whole number of
  milliseconds. \<open>MError\<close> carries the submission's id when the sender gives one.
\<close>

datatype message =
    MReady
  | MConsole string string nat
  | MTable "string list" "string list list" nat
  | MResult string string nat
  | MError "string option" string nat
  | MClear
  | MStatus string
  | MOther

section \<open>\<open>console.table\<close>\<close>

text \<open>\<open>!!v\<close>: the values that count as true in a condition.\<close>

fun truthy :: "jsval \<Rightarrow> bool" where
  "truthy VNull = False"
| "truthy VUndefined = False"
| "truthy (VString s) = (s \<noteq> [])"
| "truthy (VNumber n) = (n \<noteq> IntNum 0 \<and> n \<noteq> OtherNum ''NaN'')"
| "truthy (VBool b) = b"
| "truthy (VBigInt i) = (i \<noteq> 0)"
| "truthy (VSymbol d) = True"
| "truthy (VRef r) = True"
| "truthy (VOther s) = True"

text \<open>
  The own enumerable string-keyed properties of a value, in the order of \<open>Object.keys\<close>:
  those of a generic object, the indices of an array-like and of a string. The other
  kinds of object are taken to carry none. On a revoked Proxy the enumeration throws.
\<close>

definition ownProps :: "heap \<Rightarrow> jsval \<Rightarrow> ((string \<times> completion) list) result" where
  "ownProps h v =
     (case v of
        VRef r \<Rightarrow>
          (case h r of
             Object props \<Rightarrow> Inr props
           | ArrayLike pre xs \<Rightarrow> Inr (zip (map decimal [0..<length xs]) (map Normal xs))
           | Revoked e \<Rightarrow> Inl e
           | _ \<Rightarrow> Inr [])
      | VString s \<Rightarrow> Inr (zip (map decimal [0..<length s]) (map (\<lambda>c. Normal (VString [c])) s))
      | _ \<Rightarrow> Inr [])"

text \<open>
  A row of the table: a value taken from \<open>data\<close> as it is, or an object that
  \<open>console.table\<close> builds itself, given by its properties in the order of \<open>Object.keys\<close>.
\<close>

datatype tableRow = Existing jsval | Fresh "(string \<times> jsval) list"

text \<open>
  What \<open>row[k]\<close> yields for a key \<open>k\<close> that names no own enumerable property of the row:
  the own property that is not enumerable or the inherited member of that name (the
  \<open>length\<close> of an array, the \<open>toString\<close> of any object), \<open>undefined\<close> when there is none.
  The prototype chains and the properties that are not enumerable are not in the heap of
  this model: this read is an argument of \<open>console.table\<close>.
\<close>

type_synonym lookup = "tableRow \<Rightarrow> string \<Rightarrow> completion"

text \<open>
  Whether a key is an array index, that is the decimal text of a number below \<open>2^32 - 1\<close>:
  \<open>Object.keys\<close> lists such keys first.
\<close>

definition digitValue :: "char \<Rightarrow> nat option" where
  "digitValue c = (if c \<in> set ''0123456789'' then Some (of_char c - 48) else None)"

fun parseDecimal :: "nat \<Rightarrow> string \<Rightarrow> nat option" where
  "parseDecimal acc [] = Some acc"
| "parseDecimal acc (c # cs) =
     (case digitValue c of None \<Rightarrow> None | Some d \<Rightarrow> parseDecimal (10 * acc + d) cs)"

definition isArrayIndex :: "string \<Rightarrow> bool" where
  "isArrayIndex k =
     (k \<noteq> [] \<and> (k = ''0'' \<or> hd k \<noteq> CHR ''0'') \<and>
      (case parseDecimal 0 k of None \<Rightarrow> False | Some n \<Rightarrow> n < 4294967295))"

text \<open>
  The spread \<open>...v\<close> reads every own enumerable property of \<open>v\<close>; it throws when a getter
  does.
\<close>

fun readAll :: "(string \<times> completion) list \<Rightarrow> ((string \<times> jsval) list) result" where
  "readAll [] = Inr []"
| "readAll ((k, c) # rest) =
     (case c of
        Throw e \<Rightarrow> Inl e
      | Normal v \<Rightarrow> (case readAll rest of Inl e \<Rightarrow> Inl e | Inr kvs \<Rightarrow> Inr ((k, v) # kvs)))"

text \<open>
  \<open>({ "(index)": k, ...v })\<close>: the index keys of \<open>v\<close> come first, then \<open>(index)\<close>, then the
  other keys of \<open>v\<close>; a property \<open>(index)\<close> of \<open>v\<close> replaces the value \<open>k\<close>.
\<close>

definition indexedRow :: "string \<Rightarrow> (string \<times> jsval) list \<Rightarrow> (string \<times> jsval) list" where
  "indexedRow k kvs =
     filter (\<lambda>kv. isArrayIndex (fst kv)) kvs
     @ [(''(index)'', (case map_of kvs ''(index)'' of Some v \<Rightarrow> v | None \<Rightarrow> VString k))]
     @ filter (\<lambda>kv. \<not> isArrayIndex (fst kv) \<and> fst kv \<noteq> ''(index)'') kvs"

text \<open>\<open>entries.map(([k, v]) => ({ "(index)": k, ...v }))\<close>.\<close>

fun entryRows :: "heap \<Rightarrow> (string \<times> jsval) list \<Rightarrow> (tableRow list) result" where
  "entryRows h [] = Inr []"
| "entryRows h ((k, v) # rest) =
     (case ownProps h v of
        Inl e \<Rightarrow> Inl e
      | Inr props \<Rightarrow>
          (case readAll props of
             Inl e \<Rightarrow> Inl e
           | Inr kvs \<Rightarrow>
               (case entryRows h rest of
                  Inl e \<Rightarrow> Inl e
                | Inr rows \<Rightarrow> Inr (Fresh (indexedRow k kvs) # rows))))"

text \<open>
  \<open>Array.isArray(data)\<close>, with the elements: only an object of tag \<open>Array\<close> is an array.
  On a revoked Proxy the test throws.
\<close>

definition arrayElements :: "heap \<Rightarrow> jsval \<Rightarrow> (jsval list option) result" where
  "arrayElements h v =
     (case v of
        VRef r \<Rightarrow>
          (case h r of
             ArrayLike pre xs \<Rightarrow> Inr (if pre = [] then Some xs else None)
           | Revoked e \<Rightarrow> Inl e
           | _ \<Rightarrow> Inr None)
      | _ \<Rightarrow> Inr None)"

text \<open>\<open>typeof v === "object"\<close>.\<close>

definition isObjectType :: "heap \<Rightarrow> jsval \<Rightarrow> bool" where
  "isObjectType h v =
     (case v of
        VNull \<Rightarrow> True
      | VRef r \<Rightarrow> (case h r of Function name \<Rightarrow> False | BrokenFunction e \<Rightarrow> False | _ \<Rightarrow> True)
      | _ \<Rightarrow> False)"

text \<open>
  The normalisation of \<open>data\<close> to rows. \<open>Object.entries(data)\<close> reads all the properties
  of \<open>data\<close> before the first row is built.
\<close>

definition normalizeRows :: "heap \<Rightarrow> jsval \<Rightarrow> (tableRow list) result" where
  "normalizeRows h data =
     (case arrayElements h data of
        Inl e \<Rightarrow> Inl e
      | Inr (Some xs) \<Rightarrow> Inr (map Existing xs)
      | Inr None \<Rightarrow>
          (if truthy data \<and> isObjectType h data
           then (case ownProps h data of
                   Inl e \<Rightarrow> Inl e
                 | Inr props \<Rightarrow>
                     (case readAll props of Inl e \<Rightarrow> Inl e | Inr entries \<Rightarrow> entryRows h entries))
           else Inr [Fresh [(''value'', data)]]))"

text \<open>\<open>Object.keys(row || {})\<close>.\<close>

definition rowKeys :: "heap \<Rightarrow> tableRow \<Rightarrow> (string list) result" where
  "rowKeys h row =
     (case row of
        Existing v \<Rightarrow>
          (if truthy v
           then (case ownProps h v of Inl e \<Rightarrow> Inl e | Inr props \<Rightarrow> Inr (map fst props))
           else Inr [])
      | Fresh kvs \<Rightarrow> Inr (map fst kvs))"

text \<open>
  \<open>row && row[k]\<close>: the row itself when it counts as false, otherwise the own enumerable
  property of that name, and the read beyond those when there is none.
\<close>

definition cell :: "heap \<Rightarrow> lookup \<Rightarrow> tableRow \<Rightarrow> string \<Rightarrow> completion" where
  "cell h beyond row k =
     (case row of
        Existing v \<Rightarrow>
          (if truthy v
           then (case ownProps h v of
                   Inl e \<Rightarrow> Throw e
                 | Inr props \<Rightarrow> (case map_of props k of Some c \<Rightarrow> c | None \<Rightarrow> beyond row k))
           else Normal v)
      | Fresh kvs \<Rightarrow> (case map_of kvs k of Some v \<Rightarrow> Normal v | None \<Rightarrow> beyond row k))"

text \<open>
  The \<open>reduce\<close> over the rows with its \<open>Set\<close>: \<open>set.add(k)\<close> appends a key that the set does
  not hold yet, and \<open>Array.from\<close> lists the keys in the order in which they were added.
\<close>

definition setAdd :: "string list \<Rightarrow> string \<Rightarrow> string list" where
  "setAdd keys k = (if k \<in> set keys then keys else keys @ [k])"

fun unionKeys :: "heap \<Rightarrow> string list \<Rightarrow> tableRow list \<Rightarrow> (string list) result" where
  "unionKeys h keys [] = Inr keys"
| "unionKeys h keys (row # rows) =
     (case rowKeys h row of
        Inl e \<Rightarrow> Inl e
      | Inr ks \<Rightarrow> unionKeys h (foldl setAdd keys ks) rows)"

text \<open>The headers: the keys are not enumerated when the column list is used.\<close>

definition tableHeaders :: "heap \<Rightarrow> tableRow list \<Rightarrow> string list option \<Rightarrow> (string list) result" where
  "tableHeaders h rows columns =
     (case columns of
        Some cs \<Rightarrow> (if cs \<noteq> [] then Inr cs else unionKeys h [] rows)
      | None \<Rightarrow> unionKeys h [] rows)"

text \<open>
  \<open>headers.map(h => formatValue(row && row[h]))\<close> and the \<open>map\<close> of it over the rows. Each
  call of \<open>formatValue\<close> starts at depth 0 with a \<open>WeakSet\<close> of its own.
\<close>

fun formatCells :: "heap \<Rightarrow> lookup \<Rightarrow> tableRow \<Rightarrow> string list \<Rightarrow> (string list) result" where
  "formatCells h beyond row [] = Inr []"
| "formatCells h beyond row (k # ks) =
     (case cell h beyond row k of
        Throw e \<Rightarrow> Inl e
      | Normal v \<Rightarrow>
          (case formatValue h v 0 {} of
             Inl e \<Rightarrow> Inl e
           | Inr (t, seen) \<Rightarrow>
               (case formatCells h beyond row ks of Inl e \<Rightarrow> Inl e | Inr ts \<Rightarrow> Inr (t # ts))))"

fun formatRows :: "heap \<Rightarrow> lookup \<Rightarrow> tableRow list \<Rightarrow> string list \<Rightarrow> (string list list) result" where
  "formatRows h beyond [] headers = Inr []"
| "formatRows h beyond (row # rows) headers =
     (case formatCells h beyond row headers of
        Inl e \<Rightarrow> Inl e
      | Inr ts \<Rightarrow>
          (case formatRows h beyond rows headers of Inl e \<Rightarrow> Inl e | Inr tss \<Rightarrow> Inr (ts # tss)))"

text \<open>
  \<open>console.table(data, columns)\<close>: the message it sends, or what it throws. \<open>columns\<close> is
  \<open>Some cs\<close> when an array of keys is passed, \<open>None\<close> when the argument is missing or is not
  an array.
\<close>

definition console_table ::
  "heap \<Rightarrow> lookup \<Rightarrow> nat \<Rightarrow> jsval \<Rightarrow> string list option \<Rightarrow> message result" where
  "console_table h beyond now data columns =
     (case normalizeRows h data of
        Inl e \<Rightarrow> Inl e
      | Inr rows \<Rightarrow>
          (case tableHeaders h rows columns of
             Inl e \<Rightarrow> Inl e
           | Inr headers \<Rightarrow>
               (case formatRows h beyond rows headers of
                  Inl e \<Rightarrow> Inl e
                | Inr tableRows \<Rightarrow> Inr (MTable headers tableRows now))))"

text \<open>
  The union of the rows' keys in first-seen order, said directly: all the keys, row after
  row, each kept at its first occurrence only.
\<close>

fun firstSeen :: "string list \<Rightarrow> string list" where
  "firstSeen [] = []"
| "firstSeen (k # ks) = k # firstSeen (filter (\<lambda>x. x \<noteq> k) ks)"

section \<open>The module loader\<close>

text \<open>\<open>s.trim()\<close>: the white space of ASCII is removed at both ends.\<close>

definition isSpace :: "char \<Rightarrow> bool" where
  "isSpace c = (c = CHR 0x20 \<or> c = CHR 0x09 \<or> c = CHR 0x0A \<or> c = CHR 0x0B \<or> c = CHR 0x0C \<or> c = CHR 0x0D)"

definition trim :: "string \<Rightarrow> string" where
  "trim s = rev (dropWhile isSpace (rev (dropWhile isSpace s)))"

definition startsWith :: "string \<Rightarrow> string \<Rightarrow> bool" where
  "startsWith s p = (take (length p) s = p)"

text \<open>
  The test \<open>/^https?:\/\//i\<close>. The flag \<open>i\<close> lets each letter of the pattern match in
  either case; the letters of the text that can match one are brought to lower case.
\<close>

definition lowerHTPS :: "char \<Rightarrow> char" where
  "lowerHTPS c =
     (if c = CHR ''H'' then CHR ''h'' else if c = CHR ''T'' then CHR ''t''
      else if c = CHR ''P'' then CHR ''p'' else if c = CHR ''S'' then CHR ''s'' else c)"

definition isHttp :: "string \<Rightarrow> bool" where
  "isHttp s = (startsWith (map lowerHTPS s) ''http://'' \<or> startsWith (map lowerHTPS s) ''https://'')"

text \<open>The object literal \<open>map\<close> of \<open>resolveSpec\<close>: its own properties.\<close>

definition aliasTable :: "(string \<times> string) list" where
  "aliasTable =
     [(''lodash'', ''lodash@latest/lodash.min.js''),
      (''dayjs'', ''dayjs@latest/dayjs.min.js''),
      (''rxjs'', ''rxjs@7/dist/bundles/rxjs.umd.min.js''),
      (''ramda'', ''ramda@latest/dist/ramda.min.js''),
      (''underscore'', ''underscore@latest/underscore-min.js''),
      (''decimal.js'', ''decimal.js@latest/decimal.min.js''),
      (''papaparse'', ''papaparse@latest/papaparse.min.js'')]"

text \<open>
  \<open>map[name]\<close> also finds what the literal inherits from \<open>Object.prototype\<close>; each of
  these members is an object, so \<open>map[name] || ...\<close> keeps it, and the template puts its
  text in the locator. \<open>__proto__\<close> reads as \<open>Object.prototype\<close> itself, whose text is
  \<open>[object Object]\<close>; the others are built-in functions, shown here as V8 and
  JavaScriptCore print them.
\<close>

definition inheritedFunctions :: "string list" where
  "inheritedFunctions =
     [''constructor'', ''hasOwnProperty'', ''isPrototypeOf'', ''propertyIsEnumerable'',
      ''toLocaleString'', ''toString'', ''valueOf'', ''__defineGetter__'', ''__defineSetter__'',
      ''__lookupGetter__'', ''__lookupSetter__'']"

definition inheritedText :: "string \<Rightarrow> string option" where
  "inheritedText name =
     (if name = ''__proto__'' then Some ''[object Object]''
      else if name \<in> set inheritedFunctions
      then Some (''function '' @ (if name = ''constructor'' then ''Object'' else name) @ ''() { [native code] }'')
      else None)"

definition resolveSpec :: "string \<Rightarrow> string" where
  "resolveSpec spec =
     (let s = trim spec in
      if isHttp s \<or> startsWith s ''/'' \<or> startsWith s ''./'' \<or> startsWith s ''../'' then s
      else ''https://cdn.jsdelivr.net/npm/'' @
        (case map_of aliasTable s of
           Some path \<Rightarrow> path
         | None \<Rightarrow> (case inheritedText s of Some t \<Rightarrow> t | None \<Rightarrow> s @ ''@latest'')))"

section \<open>\<open>evalCode\<close>\<close>
















section \<open>The page\<close>

text \<open>
  The state that the message handler of \<open>createWorker\<close> reads and writes: the map
  \<open>pending\<close> from id to \<open>startedAt\<close>, the lines appended to the output, and the status
  line. Times of \<open>performance.now()\<close> are real numbers of milliseconds; the rounding of
  doubles and the text of \<open>toFixed(1)\<close> are not modelled, so a line and the status hold
  the number \<open>ms\<close> itself.
\<close>

datatype line =
    ConsoleLine string string nat
  | TableLine "string list" "string list list" nat
  | ResultLine string nat "real option"
  | ErrorLine string nat

datatype status = StatusText string | DoneIn real

record page =
  pending :: "string \<rightharpoonup> real"
  out :: "line list"
  status :: status

definition onmessage :: "real \<Rightarrow> page \<Rightarrow> message \<Rightarrow> page" where
  "onmessage now p msg =
     (case msg of
        MReady \<Rightarrow> p\<lparr>status := StatusText ''sandbox ready''\<rparr>
      | MConsole method formatted ts \<Rightarrow> p\<lparr>out := out p @ [ConsoleLine method formatted ts]\<rparr>
      | MTable headers rows ts \<Rightarrow> p\<lparr>out := out p @ [TableLine headers rows ts]\<rparr>
      | MResult i formatted ts \<Rightarrow>
          (case pending p i of
             Some startedAt \<Rightarrow>
               p\<lparr>out := out p @ [ResultLine formatted ts (Some (max 0 (now - startedAt)))],
                 pending := (pending p)(i := None),
                 status := DoneIn (max 0 (now - startedAt))\<rparr>
           | None \<Rightarrow> p\<lparr>out := out p @ [ResultLine formatted ts None]\<rparr>)
      | MError i formatted ts \<Rightarrow>
          p\<lparr>out := out p @ [ErrorLine formatted ts], status := StatusText ''error''\<rparr>
      | MClear \<Rightarrow> p\<lparr>out := []\<rparr>
      | MStatus text \<Rightarrow> p\<lparr>status := StatusText text\<rparr>
      | MOther \<Rightarrow> p)"

section \<open>Notions of the specification\<close>

text \<open>The circular-reference markers, and the objects that the set \<open>seen\<close> tracks.\<close>

definition circularMarker :: "obj \<Rightarrow> string" where
  "circularMarker ob =
     (case ob of
        MapObj es \<Rightarrow> ''[Circular Map]''
      | BrokenMap e \<Rightarrow> ''[Circular Map]''
      | SetObj xs \<Rightarrow> ''[Circular Set]''
      | BrokenSet e \<Rightarrow> ''[Circular Set]''
      | _ \<Rightarrow> ''[Circular]'')"

definition tracked :: "obj \<Rightarrow> bool" where
  "tracked ob =
     (case ob of
        MapObj es \<Rightarrow> True
      | SetObj xs \<Rightarrow> True
      | Object props \<Rightarrow> True
      | BrokenMap e \<Rightarrow> True
      | BrokenSet e \<Rightarrow> True
      | _ \<Rightarrow> False)"

text \<open>
  The marks of a sequence of calls are right, from the set \<open>seen\<close> on, when each call on
  a Map, a Set or a generic object wrote the marker exactly if the object was in the set
  or an earlier call of the sequence was on it, and no call on another composite wrote a
  marker.
\<close>

fun marksRight :: "heap \<Rightarrow> ref set \<Rightarrow> (ref \<times> mark) list \<Rightarrow> bool" where
  "marksRight h seen [] = True"
| "marksRight h seen ((r, m) # vs) =
     ((if tracked (h r) then (m = Marked) = (r \<in> seen) else m = Entered) \<and>
      marksRight h (if tracked (h r) then insert r seen else seen) vs)"

text \<open>The Maps, Sets and generic objects among the objects of a sequence of calls.\<close>

definition visited :: "heap \<Rightarrow> (ref \<times> mark) list \<Rightarrow> ref set" where
  "visited h vs = {r \<in> fst ` set vs. tracked (h r)}"

text \<open>
  A cell text \<open>t\<close> is the rendering of the cell of \<open>row\<close> under the key \<open>k\<close>: the read
  \<open>row && row[k]\<close> yields a value, and the formatter, called on it at depth 0 with an empty
  set, returns \<open>t\<close>.
\<close>

definition rendered :: "heap \<Rightarrow> lookup \<Rightarrow> tableRow \<Rightarrow> string \<Rightarrow> string \<Rightarrow> bool" where
  "rendered h beyond row k t =
     (\<exists>v seen. cell h beyond row k = Normal v \<and> formatValue h v 0 {} = Inr (t, seen))"

text \<open>
  The union of the keys of the rows \<open>xs\<close> in first-seen order: every row has its keys
  enumerated, and the union lists all of them, row after row, each at its first
  occurrence.
\<close>

definition isUnionOfKeys :: "heap \<Rightarrow> jsval list \<Rightarrow> string list \<Rightarrow> bool" where
  "isUnionOfKeys h xs hs =
     (\<exists>kss. list_all2 (\<lambda>v ks. rowKeys h (Existing v) = Inr ks) xs kss \<and> hs = firstSeen (concat kss))"

text \<open>
  The headers of a table whose rows are the elements \<open>xs\<close> of an array: the explicit
  column list when it is not empty, otherwise the union of the rows' keys.
\<close>

definition isHeaders :: "heap \<Rightarrow> jsval list \<Rightarrow> string list option \<Rightarrow> string list \<Rightarrow> bool" where
  "isHeaders h xs columns hs =
     (case columns of
        Some cs \<Rightarrow> (if cs = [] then isUnionOfKeys h xs hs else hs = cs)
      | None \<Rightarrow> isUnionOfKeys h xs hs)"

text \<open>
  A locator that \<open>resolveSpec\<close> passes through: an absolute http(s) locator, a
  root-relative path or a relative path.
\<close>

definition isLocator :: "string \<Rightarrow> bool" where
  "isLocator s = (isHttp s \<or> startsWith s ''/'' \<or> startsWith s ''./'' \<or> startsWith s ''../'')"

section \<open>Example heaps\<close>

text \<open>\<open>const a = []; a.push(a)\<close>: the array at address 0 holds itself.\<close>

definition cyclicArrayHeap :: heap where
  "cyclicArrayHeap = (\<lambda>r. Object [])(0 := ArrayLike [] [VRef 0])"

text \<open>\<open>new Set([0, 1, ..., 51])\<close> at address 0.\<close>

definition bigSetHeap :: heap where
  "bigSetHeap = (\<lambda>r. Object [])(0 := SetObj (map (\<lambda>i. VNumber (IntNum (int i))) [0..<52]))"

text \<open>
  \<open>const o = { x: 1 }; ({ a: o, b: o })\<close>: the object at address 0 holds the object at
  address 1 twice, and there is no cycle.
\<close>

definition sharedHeap :: heap where
  "sharedHeap = (\<lambda>r. Object [])
     (0 := Object [(''a'', Normal (VRef 1)), (''b'', Normal (VRef 1))],
      1 := Object [(''x'', Normal (VNumber (IntNum 1)))])"

text \<open>
  \<open>const o = {}; [[[[o]]], o]\<close>: the arrays at the addresses 0 to 3, and \<open>o\<close> at address 4.
  The first \<open>o\<close> lies at depth 4, the second at depth 1.
\<close>

definition buriedHeap :: heap where
  "buriedHeap = (\<lambda>r. Object [])
     (0 := ArrayLike [] [VRef 1, VRef 4],
      1 := ArrayLike [] [VRef 2],
      2 := ArrayLike [] [VRef 3],
      3 := ArrayLike [] [VRef 4],
      4 := Object [])"

text \<open>\<open>const o = {}; ({ p: o, q: { r: { s: o } } })\<close>, with \<open>o\<close> at address 1.\<close>

definition deepHeap :: heap where
  "deepHeap = (\<lambda>r. Object [])
     (0 := Object [(''p'', Normal (VRef 1)), (''q'', Normal (VRef 2))],
      1 := Object [],
      2 := Object [(''r'', Normal (VRef 3))],
      3 := Object [(''s'', Normal (VRef 1))])"



text \<open>
  \<open>[{a:1,b:2},{a:3,b:4}]\<close>: the array at address 0, its rows at 1 and 2. The rows inherit
  from \<open>Object.prototype\<close>, whose function \<open>toString\<close> is at address 9.
\<close>

definition tableHeap :: heap where
  "tableHeap = (\<lambda>r. Object [])
     (0 := ArrayLike [] [VRef 1, VRef 2],
      1 := Object [(''a'', Normal (VNumber (IntNum 1))), (''b'', Normal (VNumber (IntNum 2)))],
      2 := Object [(''a'', Normal (VNumber (IntNum 3))), (''b'', Normal (VNumber (IntNum 4)))],
      9 := Function ''toString'')"

text \<open>
  The reads beyond the own properties of these rows: \<open>toString\<close> is inherited, and the
  other keys used below are defined nowhere.
\<close>

definition plainLookup :: lookup where
  "plainLookup row k = (if k = ''toString'' then Normal (VRef 9) else Normal VUndefined)"

text \<open>A page with one submission pending, of id \<open>a\<close>, started at time 10.\<close>

definition examplePage :: page where
  "examplePage = \<lparr>pending = [''a'' \<mapsto> 10], out = [], status = StatusText ''running ...''\<rparr>"

section \<open>Properties of the formatter\<close>

subsection \<open>The text and its structure\<close>

text \<open>Joining the parts and flattening them can be done in either order.\<close>

lemma flatten_between:
  "concat (map flatten (between (Txt sep) rs)) = join sep (map flatten rs)"
  by (induction "Txt sep" rs rule: between.induct) simp_all

lemma flatten_keyed:
  "map (flatten \<circ> (\<lambda>(k, m). Seq [Txt (f k), m])) (zip ks ms) =
     map (\<lambda>(k, t). f k @ t) (zip ks (map flatten ms))"
proof (induction ks arbitrary: ms)
  case Nil
  show ?case by simp
next
  case (Cons k ks)
  then show ?case by (cases ms) simp_all
qed

lemma textOf_simps [simp]:
  "textOf (Inl e) = Inl e"
  "textOf (Inr (rt, s)) = Inr (flatten rt, s)"
  by (simp_all add: textOf_def)

lemma textsOf_simps [simp]:
  "textsOf (Inl e) = Inl e"
  "textsOf (Inr (rts, s)) = Inr (map flatten rts, s)"
  by (simp_all add: textsOf_def)

text \<open>The text that \<open>formatValue\<close> returns is the text of the structure, and the sets agree.\<close>

lemma formatTree_refines:
  "formatValue h v d s = textOf (formatTree h v d s)"
  "formatAll h cs d s = textsOf (formatTreeAll h cs d s)"
  "formatMapLoop h es d s i (map flatten ps) =
     textsOf (formatTreeMap h es d s i ps)"
  "formatSetLoop h vs d s i (map flatten ps) =
     textsOf (formatTreeSet h vs d s i ps)"
proof (induction h v d s and h cs d s and h es d s i ps and h vs d s i ps
    rule: formatTree_formatTreeAll_formatTreeMap_formatTreeSet.induct)
  case (1 h v depth seen)
  have leaf: "formatValue h v depth seen =
      textOf
        (case formatValue h v depth seen of Inl e \<Rightarrow> Inl e | Inr (t, seen') \<Rightarrow> Inr (Txt t, seen'))"
    by (cases "formatValue h v depth seen") auto
  show ?case
  proof (cases v)
    case (VRef r)
    show ?thesis
    proof (cases "h r")
      case (ArrayLike pre xs)
      show ?thesis
      proof (cases "2 < depth")
        case True
        with VRef ArrayLike show ?thesis by (simp add: formatTree.simps)
      next
        case False
        note ih = "1.IH"(1)[OF VRef ArrayLike False]
        show ?thesis
        proof (cases "formatTreeAll h (map Normal (take 50 xs)) (depth + 1) seen")
          case (Inl e)
          with VRef ArrayLike False ih show ?thesis by (simp add: formatTree.simps)
        next
          case (Inr b)
          obtain parts s' where b: "b = (parts, s')" by (cases b)
          with VRef ArrayLike False ih Inr show ?thesis
            by (simp add: formatTree.simps flatten_between)
        qed
      qed
    next
      case (MapObj es)
      show ?thesis
      proof (cases "r \<in> seen \<or> 2 < depth")
        case True
        with VRef MapObj show ?thesis by (auto simp add: formatTree.simps)
      next
        case False
        from "1.IH"(2)[OF VRef MapObj] False
        have ih: "formatMapLoop h es (depth + 1) (insert r seen) 0 [] =
            textsOf (formatTreeMap h es (depth + 1) (insert r seen) 0 [])"
          by simp
        show ?thesis
        proof (cases "formatTreeMap h es (depth + 1) (insert r seen) 0 []")
          case (Inl e)
          with VRef MapObj False ih show ?thesis by (simp add: formatTree.simps)
        next
          case (Inr b)
          obtain parts s' where b: "b = (parts, s')" by (cases b)
          with VRef MapObj False ih Inr show ?thesis
            by (simp add: formatTree.simps flatten_between)
        qed
      qed
    next
      case (SetObj xs)
      show ?thesis
      proof (cases "r \<in> seen \<or> 2 < depth")
        case True
        with VRef SetObj show ?thesis by (auto simp add: formatTree.simps)
      next
        case False
        from "1.IH"(3)[OF VRef SetObj] False
        have ih: "formatSetLoop h xs (depth + 1) (insert r seen) 0 [] =
            textsOf (formatTreeSet h xs (depth + 1) (insert r seen) 0 [])"
          by simp
        show ?thesis
        proof (cases "formatTreeSet h xs (depth + 1) (insert r seen) 0 []")
          case (Inl e)
          with VRef SetObj False ih show ?thesis by (simp add: formatTree.simps)
        next
          case (Inr b)
          obtain parts s' where b: "b = (parts, s')" by (cases b)
          with VRef SetObj False ih Inr show ?thesis
            by (simp add: formatTree.simps flatten_between)
        qed
      qed
    next
      case (Object props)
      show ?thesis
      proof (cases "r \<in> seen \<or> 2 < depth")
        case True
        with VRef Object show ?thesis by (auto simp add: formatTree.simps)
      next
        case False
        from "1.IH"(4)[OF VRef Object] False
        have ih: "formatAll h (map snd (take 50 props)) (depth + 1) (insert r seen) =
            textsOf
              (formatTreeAll h (map snd (take 50 props)) (depth + 1) (insert r seen))"
          by simp
        show ?thesis
        proof (cases "formatTreeAll h (map snd (take 50 props)) (depth + 1) (insert r seen)")
          case (Inl e)
          with VRef Object False ih show ?thesis by (simp add: formatTree.simps)
        next
          case (Inr b)
          obtain members s' where b: "b = (members, s')" by (cases b)
          note k = flatten_keyed[of "\<lambda>k. JSON_stringify k @ '': ''" _ members]
          from VRef Object False ih Inr b show ?thesis
            by (simp add: formatTree.simps flatten_between k)
        qed
      qed
    qed (use VRef leaf in \<open>auto simp add: formatTree.simps\<close>)
  qed (use leaf in \<open>simp_all add: formatTree.simps\<close>)
next
  case (3 h c cs depth seen)
  show ?case
  proof (cases c)
    case (Throw e)
    then show ?thesis by simp
  next
    case (Normal v)
    note ih1 = "3.IH"(1)[OF Normal]
    show ?thesis
    proof (cases "formatTree h v depth seen")
      case (Inl e)
      with Normal ih1 show ?thesis by simp
    next
      case (Inr b)
      obtain t s1 where b: "b = (t, s1)" by (cases b)
      note ih2 = "3.IH"(2)[OF Normal Inr b[symmetric]]
      show ?thesis
      proof (cases "formatTreeAll h cs depth s1")
        case (Inl e)
        with Normal ih1 ih2 Inr b show ?thesis by simp
      next
        case Inr2: (Inr b2)
        then show ?thesis using Normal ih1 ih2 Inr b by (cases b2) simp
      qed
    qed
  qed
next
  case (5 h kv rest depth seen i parts)
  note ih1 = "5.IH"(1)
  show ?case
  proof (cases "formatTree h (fst kv) depth seen")
    case (Inl e)
    with ih1 show ?thesis by simp
  next
    case (Inr b)
    obtain tk s1 where b: "b = (tk, s1)" by (cases b)
    note ih2 = "5.IH"(2)[OF Inr b[symmetric]]
    show ?thesis
    proof (cases "formatTree h (snd kv) depth s1")
      case (Inl e)
      with ih1 ih2 Inr b show ?thesis by simp
    next
      case Inr2: (Inr b2)
      obtain tv s2 where b2: "b2 = (tv, s2)" by (cases b2)
      show ?thesis
      proof (cases "50 < i + 1")
        case True
        with ih1 ih2 Inr b Inr2 b2 show ?thesis by simp
      next
        case False
        from "5.IH"(3)[OF Inr b[symmetric] Inr2 b2[symmetric] False]
        have "formatMapLoop h rest depth s2 (i + 1) (map flatten parts @ [flatten tk @ '' => '' @ flatten tv]) =
            textsOf
              (formatTreeMap h rest depth s2 (i + 1) (parts @ [Seq [tk, Txt '' => '', tv]]))"
          by simp
        with False ih1 ih2 Inr b Inr2 b2 show ?thesis by simp
      qed
    qed
  qed
next
  case (7 h v rest depth seen i parts)
  note ih1 = "7.IH"(1)
  show ?case
  proof (cases "formatTree h v depth seen")
    case (Inl e)
    with ih1 show ?thesis by simp
  next
    case (Inr b)
    obtain t s1 where b: "b = (t, s1)" by (cases b)
    show ?thesis
    proof (cases "50 < i + 1")
      case True
      with ih1 Inr b show ?thesis by simp
    next
      case False
      from "7.IH"(2)[OF Inr b[symmetric] False]
      have "formatSetLoop h rest depth s1 (i + 1) (map flatten parts @ [flatten t]) =
          textsOf (formatTreeSet h rest depth s1 (i + 1) (parts @ [t]))"
        by simp
      with False ih1 Inr b show ?thesis by simp
    qed
  qed
qed simp_all

subsection \<open>The levels of expansion\<close>

text \<open>One structure is returned for each member.\<close>

lemma formatTreeAll_length:
  "formatTreeAll h cs d s = Inr (rts, s') \<Longrightarrow> length rts = length cs"
proof (induction cs arbitrary: s rts)
  case Nil
  then show ?case by simp
next
  case (Cons c cs)
  from Cons.prems obtain v t s1 ts where "formatTreeAll h cs d s1 = Inr (ts, s')" and "rts = t # ts"
    by (auto split: completion.splits sum.splits prod.splits)
  with Cons.IH show ?case by auto
qed

lemma set_between: "set (between sep rs) \<subseteq> insert sep (set rs)"
  by (induction sep rs rule: between.induct) auto

lemma foldr_max_le:
  "(\<And>x. x \<in> set xs \<Longrightarrow> f x \<le> (n::nat)) \<Longrightarrow> foldr max (map f xs) 0 \<le> n"
  by (induction xs) auto

lemma levels_Seq_le:
  "(\<And>x. x \<in> set rs \<Longrightarrow> levels x \<le> n) \<Longrightarrow> levels (Seq rs) \<le> n"
  by (simp add: foldr_max_le)

lemma levels_framed:
  assumes "\<And>x. x \<in> set parts \<Longrightarrow> levels x \<le> n"
  shows "levels (Seq ([Txt a] @ between (Txt sep) parts @ [Txt b])) \<le> n"
proof (rule levels_Seq_le)
  fix x assume "x \<in> set ([Txt a] @ between (Txt sep) parts @ [Txt b])"
  with set_between[of "Txt sep" parts] have "x = Txt a \<or> x = Txt b \<or> x = Txt sep \<or> x \<in> set parts"
    by auto
  with assms show "levels x \<le> n" by auto
qed

text \<open>A call at depth \<open>d\<close> expands no more than \<open>3 - d\<close> nested levels.\<close>

lemma levels_bound:
  "formatTree h v d s = Inr (rt, s') \<Longrightarrow> levels rt \<le> 3 - d"
  "formatTreeAll h cs d s = Inr (rts, s') \<Longrightarrow> \<forall>x \<in> set rts. levels x \<le> 3 - d"
  "formatTreeMap h es d s i ps = Inr (rts, s') \<Longrightarrow> \<forall>x \<in> set ps. levels x \<le> 3 - d
     \<Longrightarrow> \<forall>x \<in> set rts. levels x \<le> 3 - d"
  "formatTreeSet h vs d s i ps = Inr (rts, s') \<Longrightarrow> \<forall>x \<in> set ps. levels x \<le> 3 - d
     \<Longrightarrow> \<forall>x \<in> set rts. levels x \<le> 3 - d"
proof (induction h v d s and h cs d s and h es d s i ps and h vs d s i ps
    arbitrary: rt s' and rts s' and rts s' and rts s'
    rule: formatTree_formatTreeAll_formatTreeMap_formatTreeSet.induct)
  case (1 h v depth seen)
  have leaf: "levels rt \<le> 3 - depth"
    if "(case formatValue h v depth seen of Inl e \<Rightarrow> Inl e | Inr (t, seen') \<Rightarrow> Inr (Txt t, seen'))
          = Inr (rt, s')"
    using that by (auto split: sum.splits prod.splits)
  show ?case
  proof (cases v)
    case (VRef r)
    show ?thesis
    proof (cases "h r")
      case (ArrayLike pre xs)
      show ?thesis
      proof (cases "2 < depth")
        case True
        with "1.prems" VRef ArrayLike show ?thesis by (auto simp add: formatTree.simps)
      next
        case False
        with "1.prems" VRef ArrayLike obtain parts a b where
          p: "formatTreeAll h (map Normal (take 50 xs)) (depth + 1) seen = Inr (parts, s')"
          and rt: "rt = Expanded r (Seq ([Txt a] @ between (Txt '', '') parts @ [Txt b]))"
          by (auto simp add: formatTree.simps split: sum.splits prod.splits)
        from "1.IH"(1)[OF VRef ArrayLike False p]
        have m: "\<And>x. x \<in> set parts \<Longrightarrow> levels x \<le> 3 - (depth + 1)"
          by blast
        have "levels (Seq ([Txt a] @ between (Txt '', '') parts @ [Txt b])) \<le> 3 - (depth + 1)"
          by (rule levels_framed) (rule m)
        with rt False show ?thesis by ((simp only: levels.simps(3))?, arith?)
      qed
    next
      case (MapObj es)
      show ?thesis
      proof (cases "r \<in> seen \<or> 2 < depth")
        case True
        with "1.prems" VRef MapObj show ?thesis
          by (auto simp add: formatTree.simps split: if_splits)
      next
        case False
        with "1.prems" VRef MapObj obtain parts a b where
          p: "formatTreeMap h es (depth + 1) (insert r seen) 0 [] = Inr (parts, s')"
          and rt: "rt = Expanded r (Seq ([Txt a] @ between (Txt '', '') parts @ [Txt b]))"
          by (auto simp add: formatTree.simps split: sum.splits prod.splits)
        from False have c: "r \<notin> seen" "\<not> 2 < depth" by auto
        from "1.IH"(2)[OF VRef MapObj c p]
        have m: "\<And>x. x \<in> set parts \<Longrightarrow> levels x \<le> 3 - (depth + 1)"
          by simp
        have "levels (Seq ([Txt a] @ between (Txt '', '') parts @ [Txt b])) \<le> 3 - (depth + 1)"
          by (rule levels_framed) (rule m)
        with rt c show ?thesis by ((simp only: levels.simps(3))?, arith?)
      qed
    next
      case (SetObj xs)
      show ?thesis
      proof (cases "r \<in> seen \<or> 2 < depth")
        case True
        with "1.prems" VRef SetObj show ?thesis
          by (auto simp add: formatTree.simps split: if_splits)
      next
        case False
        with "1.prems" VRef SetObj obtain parts a b where
          p: "formatTreeSet h xs (depth + 1) (insert r seen) 0 [] = Inr (parts, s')"
          and rt: "rt = Expanded r (Seq ([Txt a] @ between (Txt '', '') parts @ [Txt b]))"
          by (auto simp add: formatTree.simps split: sum.splits prod.splits)
        from False have c: "r \<notin> seen" "\<not> 2 < depth" by auto
        from "1.IH"(3)[OF VRef SetObj c p]
        have m: "\<And>x. x \<in> set parts \<Longrightarrow> levels x \<le> 3 - (depth + 1)"
          by simp
        have "levels (Seq ([Txt a] @ between (Txt '', '') parts @ [Txt b])) \<le> 3 - (depth + 1)"
          by (rule levels_framed) (rule m)
        with rt c show ?thesis by ((simp only: levels.simps(3))?, arith?)
      qed
    next
      case (Object props)
      show ?thesis
      proof (cases "r \<in> seen \<or> 2 < depth")
        case True
        with "1.prems" VRef Object show ?thesis
          by (auto simp add: formatTree.simps split: if_splits)
      next
        case False
        with "1.prems" VRef Object obtain members items where
          p: "formatTreeAll h (map snd (take 50 props)) (depth + 1) (insert r seen) = Inr (members, s')"
          and it: "items = map2 (\<lambda>k m. Seq [Txt (JSON_stringify k @ '': ''), m])
                       (map fst (take 50 props)) members
                     @ (if length props > 50 then [Txt ellipsis] else [])"
          and rt: "rt = Expanded r (Seq ([Txt ''{ ''] @ between (Txt '', '') items @ [Txt '' }'']))"
          by (auto simp add: formatTree.simps split: sum.splits prod.splits)
        from False have c: "r \<notin> seen" "\<not> 2 < depth" by auto
        from "1.IH"(4)[OF VRef Object c p]
        have m: "\<And>x. x \<in> set members \<Longrightarrow> levels x \<le> 3 - (depth + 1)"
          by blast
        have m': "\<And>x. x \<in> set items \<Longrightarrow> levels x \<le> 3 - (depth + 1)"
          unfolding it using m by (auto dest: set_zip_rightD)
        have "levels (Seq ([Txt ''{ ''] @ between (Txt '', '') items @ [Txt '' }''])) \<le> 3 - (depth + 1)"
          by (rule levels_framed) (rule m')
        with rt c show ?thesis by ((simp only: levels.simps(3))?, arith?)
      qed
    next
      case (BrokenArray pre len e)
      with "1.prems" VRef show ?thesis by (auto simp add: formatTree.simps split: if_splits)
    next
      case (BrokenMap e)
      with "1.prems" VRef show ?thesis by (auto simp add: formatTree.simps split: if_splits)
    next
      case (BrokenSet e)
      with "1.prems" VRef show ?thesis by (auto simp add: formatTree.simps split: if_splits)
    qed (use "1.prems" VRef leaf in \<open>simp_all add: formatTree.simps\<close>)
  qed (use "1.prems" leaf in \<open>simp_all add: formatTree.simps\<close>)
next
  case (3 h c cs depth seen)
  from "3.prems" obtain v t s1 ts where c: "c = Normal v"
    and a: "formatTree h v depth seen = Inr (t, s1)"
    and b: "formatTreeAll h cs depth s1 = Inr (ts, s')" and r: "rts = t # ts"
    by (auto split: completion.splits sum.splits prod.splits)
  from "3.IH"(1)[OF c a] "3.IH"(2)[OF c a refl b] r show ?case by simp
next
  case (5 h kv rest depth seen i parts)
  from "5.prems"(1) obtain tk s1 tv s2 where a: "formatTree h (fst kv) depth seen = Inr (tk, s1)"
    and b: "formatTree h (snd kv) depth s1 = Inr (tv, s2)"
    by (auto split: sum.splits prod.splits)
  from "5.IH"(1)[OF a] "5.IH"(2)[OF a refl b]
  have e: "levels (Seq [tk, Txt '' => '', tv]) \<le> 3 - depth" by simp
  show ?case
  proof (cases "50 < i + 1")
    case True
    with "5.prems"(1) a b have "rts = parts @ [Seq [tk, Txt '' => '', tv]] @ [Txt ellipsis]" by simp
    with "5.prems"(2) e show ?thesis by (auto simp del: levels.simps(2))
  next
    case False
    with "5.prems"(1) a b
    have l: "formatTreeMap h rest depth s2 (i + 1) (parts @ [Seq [tk, Txt '' => '', tv]]) = Inr (rts, s')"
      by simp
    from "5.prems"(2) e have "\<forall>x \<in> set (parts @ [Seq [tk, Txt '' => '', tv]]). levels x \<le> 3 - depth"
      by (auto simp del: levels.simps(2))
    from "5.IH"(3)[OF a refl b refl False l this] show ?thesis .
  qed
next
  case (7 h v rest depth seen i parts)
  from "7.prems"(1) obtain t s1 where a: "formatTree h v depth seen = Inr (t, s1)"
    by (auto split: sum.splits prod.splits)
  note e = "7.IH"(1)[OF a]
  show ?case
  proof (cases "50 < i + 1")
    case True
    with "7.prems"(1) a have "rts = parts @ [t] @ [Txt ellipsis]" by simp
    with "7.prems"(2) e show ?thesis by auto
  next
    case False
    with "7.prems"(1) a have l: "formatTreeSet h rest depth s1 (i + 1) (parts @ [t]) = Inr (rts, s')"
      by simp
    from "7.prems"(2) e have "\<forall>x \<in> set (parts @ [t]). levels x \<le> 3 - depth" by auto
    from "7.IH"(2)[OF a refl False l this] show ?thesis .
  qed
qed auto

subsection \<open>The calls of a traversal\<close>

text \<open>The separators and the keys of an object add no call.\<close>

lemma visits_between:
  "concat (map visits (between (Txt sep) rs)) = concat (map visits rs)"
  by (induction "Txt sep" rs rule: between.induct) simp_all

lemma visits_keyed:
  "length ks = length ms \<Longrightarrow>
     concat (map visits (map2 (\<lambda>k m. Seq [Txt (f k), m]) ks ms)) = concat (map visits ms)"
proof (induction ks arbitrary: ms)
  case Nil
  then show ?case by simp
next
  case (Cons k ks)
  then show ?case by (cases ms) simp_all
qed

lemma visited_simps [simp]:
  "visited h [] = {}"
  "visited h ((r, m) # vs) = (if tracked (h r) then insert r (visited h vs) else visited h vs)"
  "visited h (a @ b) = visited h a \<union> visited h b"
  by (auto simp: visited_def)

lemma marksRight_append:
  "marksRight h s (a @ b) = (marksRight h s a \<and> marksRight h (s \<union> visited h a) b)"
proof (induction a arbitrary: s)
  case Nil
  show ?case by simp
next
  case (Cons x a)
  obtain r m where x: "x = (r, m)" by (cases x)
  show ?case
  proof (cases "tracked (h r)")
    case True
    have "insert r s \<union> visited h a = s \<union> insert r (visited h a)" by auto
    with True x Cons[of "insert r s"] show ?thesis by simp
  next
    case False
    with x Cons[of s] show ?thesis by simp
  qed
qed

text \<open>
  The marks of the calls of one traversal are right, and the set returned is the set
  given with the Maps, Sets and generic objects of the calls.
\<close>

lemma marks_of_traversal:
  "formatTree h v d s = Inr (rt, s') \<Longrightarrow>
     marksRight h s (visits rt) \<and> s' = s \<union> visited h (visits rt)"
  "formatTreeAll h cs d s = Inr (rts, s') \<Longrightarrow>
     marksRight h s (concat (map visits rts)) \<and> s' = s \<union> visited h (concat (map visits rts))"
  "formatTreeMap h es d s i ps = Inr (rts, s') \<Longrightarrow>
     \<exists>new. concat (map visits rts) = concat (map visits ps) @ new \<and>
       marksRight h s new \<and> s' = s \<union> visited h new"
  "formatTreeSet h vs d s i ps = Inr (rts, s') \<Longrightarrow>
     \<exists>new. concat (map visits rts) = concat (map visits ps) @ new \<and>
       marksRight h s new \<and> s' = s \<union> visited h new"
proof (induction h v d s and h cs d s and h es d s i ps and h vs d s i ps
    arbitrary: rt s' and rts s' and rts s' and rts s'
    rule: formatTree_formatTreeAll_formatTreeMap_formatTreeSet.induct)
  case (1 h v depth seen)
  have leaf: "marksRight h seen (visits rt) \<and> s' = seen \<union> visited h (visits rt)"
    if "(case formatValue h v depth seen of Inl e \<Rightarrow> Inl e | Inr (t, seen') \<Rightarrow> Inr (Txt t, seen'))
          = Inr (rt, s')"
      and "formatValue h v depth seen = Inl e \<or> formatValue h v depth seen = Inr (t, seen)" for e t
    using that by (auto split: sum.splits prod.splits)
  show ?case
  proof (cases v)
    case (VRef r)
    show ?thesis
    proof (cases "h r")
      case (ArrayLike pre xs)
      then have nt: "\<not> tracked (h r)" by (simp add: tracked_def)
      show ?thesis
      proof (cases "2 < depth")
        case True
        with "1.prems" VRef ArrayLike nt show ?thesis by (auto simp add: formatTree.simps)
      next
        case False
        with "1.prems" VRef ArrayLike obtain parts a b where
          p: "formatTreeAll h (map Normal (take 50 xs)) (depth + 1) seen = Inr (parts, s')"
          and rt: "rt = Expanded r (Seq ([Txt a] @ between (Txt '', '') parts @ [Txt b]))"
          by (auto simp add: formatTree.simps split: sum.splits prod.splits)
        from rt have v: "visits rt = (r, Entered) # concat (map visits parts)"
          by (simp add: visits_between)
        from "1.IH"(1)[OF VRef ArrayLike False p] v nt show ?thesis by simp
      qed
    next
      case (MapObj es)
      then have tr: "tracked (h r)" by (simp add: tracked_def)
      show ?thesis
      proof (cases "r \<in> seen \<or> 2 < depth")
        case True
        with "1.prems" VRef MapObj tr show ?thesis
          by (auto simp add: formatTree.simps split: if_splits)
      next
        case False
        with "1.prems" VRef MapObj obtain parts a b where
          p: "formatTreeMap h es (depth + 1) (insert r seen) 0 [] = Inr (parts, s')"
          and rt: "rt = Expanded r (Seq ([Txt a] @ between (Txt '', '') parts @ [Txt b]))"
          by (auto simp add: formatTree.simps split: sum.splits prod.splits)
        from False have c: "r \<notin> seen" "\<not> 2 < depth" by auto
        from rt have v: "visits rt = (r, Entered) # concat (map visits parts)"
          by (simp add: visits_between)
        from "1.IH"(2)[OF VRef MapObj c p] v tr c show ?thesis by auto
      qed
    next
      case (SetObj xs)
      then have tr: "tracked (h r)" by (simp add: tracked_def)
      show ?thesis
      proof (cases "r \<in> seen \<or> 2 < depth")
        case True
        with "1.prems" VRef SetObj tr show ?thesis
          by (auto simp add: formatTree.simps split: if_splits)
      next
        case False
        with "1.prems" VRef SetObj obtain parts a b where
          p: "formatTreeSet h xs (depth + 1) (insert r seen) 0 [] = Inr (parts, s')"
          and rt: "rt = Expanded r (Seq ([Txt a] @ between (Txt '', '') parts @ [Txt b]))"
          by (auto simp add: formatTree.simps split: sum.splits prod.splits)
        from False have c: "r \<notin> seen" "\<not> 2 < depth" by auto
        from rt have v: "visits rt = (r, Entered) # concat (map visits parts)"
          by (simp add: visits_between)
        from "1.IH"(3)[OF VRef SetObj c p] v tr c show ?thesis by auto
      qed
    next
      case (Object props)
      then have tr: "tracked (h r)" by (simp add: tracked_def)
      show ?thesis
      proof (cases "r \<in> seen \<or> 2 < depth")
        case True
        with "1.prems" VRef Object tr show ?thesis
          by (auto simp add: formatTree.simps split: if_splits)
      next
        case False
        define tl where "tl = (if length props > 50 then [Txt ellipsis] else [])"
        from False "1.prems" VRef Object obtain members where
          p: "formatTreeAll h (map snd (take 50 props)) (depth + 1) (insert r seen) = Inr (members, s')"
          and rt: "rt = Expanded r (Seq ([Txt ''{ ''] @ between (Txt '', '')
                (map2 (\<lambda>k m. Seq [Txt (JSON_stringify k @ '': ''), m])
                       (map fst (take 50 props)) members @ tl) @ [Txt '' }'']))"
          unfolding tl_def
          by (auto simp add: formatTree.simps split: sum.splits prod.splits)
        have tl: "tl = [] \<or> tl = [Txt ellipsis]" by (simp add: tl_def)
        from False have c: "r \<notin> seen" "\<not> 2 < depth" by auto
        from formatTreeAll_length[OF p] have l: "length (map fst (take 50 props)) = length members"
          by simp
        from tl have "concat (map visits tl) = []" by auto
        with rt visits_keyed[OF l, of "\<lambda>k. JSON_stringify k @ '': ''"]
        have v: "visits rt = (r, Entered) # concat (map visits members)"
          by (simp add: visits_between)
        from "1.IH"(4)[OF VRef Object c p] v tr c show ?thesis by auto
      qed
    next
      case (BrokenArray pre len e)
      then have "\<not> tracked (h r)" by (simp add: tracked_def)
      with "1.prems" VRef BrokenArray show ?thesis
        by (auto simp add: formatTree.simps split: if_splits)
    next
      case (BrokenMap e)
      then have "tracked (h r)" by (simp add: tracked_def)
      with "1.prems" VRef BrokenMap show ?thesis
        by (auto simp add: formatTree.simps split: if_splits)
    next
      case (BrokenSet e)
      then have "tracked (h r)" by (simp add: tracked_def)
      with "1.prems" VRef BrokenSet show ?thesis
        by (auto simp add: formatTree.simps split: if_splits)
    qed (use "1.prems" VRef in \<open>auto simp add: formatTree.simps\<close>)
  qed (use "1.prems" in \<open>auto simp add: formatTree.simps split: option.splits\<close>)
next
  case (3 h c cs depth seen)
  from "3.prems" obtain v t s1 ts where c: "c = Normal v"
    and a: "formatTree h v depth seen = Inr (t, s1)"
    and b: "formatTreeAll h cs depth s1 = Inr (ts, s')" and r: "rts = t # ts"
    by (auto split: completion.splits sum.splits prod.splits)
  from "3.IH"(1)[OF c a] "3.IH"(2)[OF c a refl b] r show ?case
    by (auto simp add: marksRight_append Un_assoc)
next
  case (5 h kv rest depth seen i parts)
  from "5.prems" obtain tk s1 tv s2 where a: "formatTree h (fst kv) depth seen = Inr (tk, s1)"
    and b: "formatTree h (snd kv) depth s1 = Inr (tv, s2)"
    by (auto split: sum.splits prod.splits)
  let ?e = "Seq [tk, Txt '' => '', tv]"
  from "5.IH"(1)[OF a] "5.IH"(2)[OF a refl b]
  have e: "marksRight h seen (visits ?e)" "s2 = seen \<union> visited h (visits ?e)"
    by (auto simp add: marksRight_append Un_assoc)
  show ?case
  proof (cases "50 < i + 1")
    case True
    with "5.prems" a b have "rts = parts @ [?e] @ [Txt ellipsis]" "s' = s2" by simp_all
    with e show ?thesis by (intro exI[of _ "visits ?e"]) simp
  next
    case False
    with "5.prems" a b
    have l: "formatTreeMap h rest depth s2 (i + 1) (parts @ [?e]) = Inr (rts, s')"
      by simp
    from "5.IH"(3)[OF a refl b refl False l] obtain new where
      n: "concat (map visits rts) = concat (map visits (parts @ [?e])) @ new"
        "marksRight h s2 new" "s' = s2 \<union> visited h new"
      by blast
    with e show ?thesis
      by (intro exI[of _ "visits ?e @ new"]) (auto simp add: marksRight_append Un_assoc)
  qed
next
  case (7 h v rest depth seen i parts)
  from "7.prems" obtain t s1 where a: "formatTree h v depth seen = Inr (t, s1)"
    by (auto split: sum.splits prod.splits)
  note e = "7.IH"(1)[OF a]
  show ?case
  proof (cases "50 < i + 1")
    case True
    with "7.prems" a have "rts = parts @ [t] @ [Txt ellipsis]" "s' = s1" by simp_all
    with e show ?thesis by (intro exI[of _ "visits t"]) simp
  next
    case False
    with "7.prems" a have l: "formatTreeSet h rest depth s1 (i + 1) (parts @ [t]) = Inr (rts, s')"
      by simp
    from "7.IH"(2)[OF a refl False l] obtain new where
      n: "concat (map visits rts) = concat (map visits (parts @ [t])) @ new"
        "marksRight h s1 new" "s' = s1 \<union> visited h new"
      by blast
    with e show ?thesis
      by (intro exI[of _ "visits t @ new"]) (auto simp add: marksRight_append Un_assoc)
  qed
qed auto

subsection \<open>The set \<open>seen\<close>\<close>

text \<open>Every text that the formatter returns is the text of the structure.\<close>

lemma formatValue_tree:
  assumes "formatValue h v d s = Inr (t, s')"
  shows "\<exists>rt. formatTree h v d s = Inr (rt, s') \<and> flatten rt = t"
proof (cases "formatTree h v d s")
  case (Inl x)
  with assms formatTree_refines(1)[of h v d s] show ?thesis by simp
next
  case (Inr b)
  with assms formatTree_refines(1)[of h v d s] show ?thesis by (cases b) simp
qed

lemma formatAll_tree:
  assumes "formatAll h cs d s = Inr (ts, s')"
  shows "\<exists>rts. formatTreeAll h cs d s = Inr (rts, s') \<and> map flatten rts = ts"
proof (cases "formatTreeAll h cs d s")
  case (Inl x)
  with assms formatTree_refines(2)[of h cs d s] show ?thesis by simp
next
  case (Inr b)
  with assms formatTree_refines(2)[of h cs d s] show ?thesis by (cases b) simp
qed

lemma formatMapLoop_tree:
  assumes "formatMapLoop h es d s i [] = Inr (ts, s')"
  shows "\<exists>rts. formatTreeMap h es d s i [] = Inr (rts, s') \<and> map flatten rts = ts"
proof (cases "formatTreeMap h es d s i []")
  case (Inl x)
  with assms formatTree_refines(3)[of h es d s i "[]"] show ?thesis by simp
next
  case (Inr b)
  with assms formatTree_refines(3)[of h es d s i "[]"] show ?thesis by (cases b) simp
qed

lemma formatSetLoop_tree:
  assumes "formatSetLoop h vs d s i [] = Inr (ts, s')"
  shows "\<exists>rts. formatTreeSet h vs d s i [] = Inr (rts, s') \<and> map flatten rts = ts"
proof (cases "formatTreeSet h vs d s i []")
  case (Inl x)
  with assms formatTree_refines(4)[of h vs d s i "[]"] show ?thesis by simp
next
  case (Inr b)
  with assms formatTree_refines(4)[of h vs d s i "[]"] show ?thesis by (cases b) simp
qed

text \<open>The set \<open>seen\<close> only grows: no call removes an entry.\<close>

lemma seen_grows:
  "formatValue h v d s = Inr (t, s') \<Longrightarrow> s \<subseteq> s'"
  "formatAll h cs d s = Inr (ts, s') \<Longrightarrow> s \<subseteq> s'"
  "formatMapLoop h es d s i [] = Inr (ts, s') \<Longrightarrow> s \<subseteq> s'"
  "formatSetLoop h vs d s i [] = Inr (ts, s') \<Longrightarrow> s \<subseteq> s'"
proof -
  assume "formatValue h v d s = Inr (t, s')"
  from formatValue_tree[OF this] marks_of_traversal(1) show "s \<subseteq> s'" by blast
next
  assume "formatAll h cs d s = Inr (ts, s')"
  from formatAll_tree[OF this] marks_of_traversal(2) show "s \<subseteq> s'" by blast
next
  assume "formatMapLoop h es d s i [] = Inr (ts, s')"
  from formatMapLoop_tree[OF this] obtain rts where "formatTreeMap h es d s i [] = Inr (rts, s')"
    by blast
  from marks_of_traversal(3)[OF this] show "s \<subseteq> s'" by blast
next
  assume "formatSetLoop h vs d s i [] = Inr (ts, s')"
  from formatSetLoop_tree[OF this] obtain rts where "formatTreeSet h vs d s i [] = Inr (rts, s')"
    by blast
  from marks_of_traversal(4)[OF this] show "s \<subseteq> s'" by blast
qed

text \<open>A call on a Map, a Set or a generic object leaves it in \<open>seen\<close>.\<close>

lemma visited_after:
  assumes "tracked (h r)" and "formatValue h (VRef r) d s = Inr (t, s')"
  shows "r \<in> s'"
proof (cases "r \<in> s")
  case True
  with seen_grows(1)[OF assms(2)] show ?thesis by blast
next
  case False
  show ?thesis
  proof (cases "2 < d")
    case True
    with False assms show ?thesis
      by (cases "h r") (auto simp: tracked_def)
  next
    case False
    note shallow = this
    from assms(1) consider (m) es where "h r = MapObj es" | (s) xs where "h r = SetObj xs"
      | (ob) props where "h r = Object props" | (bm) e where "h r = BrokenMap e"
      | (bs) e where "h r = BrokenSet e"
      by (cases "h r") (auto simp: tracked_def)
    then show ?thesis
    proof cases
      case m
      with assms(2) \<open>r \<notin> s\<close> shallow obtain ps
        where "formatMapLoop h es (d + 1) (insert r s) 0 [] = Inr (ps, s')"
        by (simp split: sum.splits prod.splits)
      from seen_grows(3)[OF this] show ?thesis by blast
    next
      case s
      with assms(2) \<open>r \<notin> s\<close> shallow obtain ps
        where "formatSetLoop h xs (d + 1) (insert r s) 0 [] = Inr (ps, s')"
        by (simp split: sum.splits prod.splits)
      from seen_grows(4)[OF this] show ?thesis by blast
    next
      case ob
      with assms(2) \<open>r \<notin> s\<close> shallow obtain ps
        where "formatAll h (map snd (take 50 props)) (d + 1) (insert r s) = Inr (ps, s')"
        by (simp split: sum.splits prod.splits)
      from seen_grows(2)[OF this] show ?thesis by blast
    next
      case bm
      with assms(2) \<open>r \<notin> s\<close> shallow show ?thesis by simp
    next
      case bs
      with assms(2) \<open>r \<notin> s\<close> shallow show ?thesis by simp
    qed
  qed
qed

text \<open>A call on a Map, a Set or a generic object that is in \<open>seen\<close> writes the marker.\<close>

lemma marker_if_seen:
  assumes "tracked (h r)" and "r \<in> s"
  shows "formatValue h (VRef r) d s = Inr (circularMarker (h r), s)"
  using assms by (cases "h r") (auto simp: tracked_def circularMarker_def)

text \<open>
  Among the members that one call formats in turn, a Map, a Set or a generic object
  that was in \<open>seen\<close>, or that is also an earlier member, is written as its marker.
\<close>

lemma later_member_marker:
  assumes "formatAll h cs d s = Inr (ts, s')" and "j < length cs"
    and "cs ! j = Normal (VRef ob)" and "tracked (h ob)"
    and "ob \<in> s \<or> (\<exists>i<j. cs ! i = Normal (VRef ob))"
  shows "ts ! j = circularMarker (h ob)"
  using assms
proof (induction cs arbitrary: s ts j)
  case Nil
  then show ?case by simp
next
  case (Cons c cs)
  from Cons.prems(1) obtain v t s1 ts' where c: "c = Normal v"
    and f: "formatValue h v d s = Inr (t, s1)"
    and r: "formatAll h cs d s1 = Inr (ts', s')" and ts: "ts = t # ts'"
    by (auto simp del: formatValue.simps split: completion.splits sum.splits prod.splits)
  show ?case
  proof (cases j)
    case 0
    with Cons.prems(3,5) c have "v = VRef ob" "ob \<in> s" by simp_all
    with f Cons.prems(4) marker_if_seen[where h = h and r = ob and s = s and d = d] have "t = circularMarker (h ob)" by simp
    with 0 ts show ?thesis by simp
  next
    case (Suc j')
    have "ob \<in> s1 \<or> (\<exists>i<j'. cs ! i = Normal (VRef ob))"
    proof (cases "ob \<in> s")
      case True
      with seen_grows(1)[OF f] show ?thesis by blast
    next
      case False
      with Cons.prems(5) obtain i where i: "i < j" "(c # cs) ! i = Normal (VRef ob)" by blast
      show ?thesis
      proof (cases i)
        case 0
        with i c have "v = VRef ob" by simp
        with f Cons.prems(4) visited_after[where h = h and r = ob and d = d and s = s and t = t and s' = s1]
        show ?thesis by simp
      next
        case (Suc i')
        with i Suc have "i' < j'" "cs ! i' = Normal (VRef ob)"
          using \<open>j = Suc j'\<close> by simp_all
        then show ?thesis by blast
      qed
    qed
    moreover from Cons.prems(2,3) Suc have "j' < length cs" "cs ! j' = Normal (VRef ob)" by simp_all
    ultimately have "ts' ! j' = circularMarker (h ob)"
      using Cons.IH[where s = s1 and ts = ts' and j = j'] r Cons.prems(4) by blast
    with Suc ts show ?thesis by simp
  qed
qed

subsection \<open>Faults\<close>



section \<open>Claims about the formatter\<close>

text \<open>
  C3. The claim: for every cyclic composite input, cyclic arrays included, the formatter
  ends and writes a circular-reference marker where the value met before is met again,
  and does not enter that value a second time. The branch of arrays neither reads nor
  writes \<open>seen\<close>: the array that holds itself is entered at each of the depths 0 to 3 and
  no marker is written; only the depth bound ends the recursion.
\<close>

theorem cyclic_array_no_marker:
  "formatValue cyclicArrayHeap (VRef 0) 0 {} =
     Inr (''Array(1) [Array(1) [Array(1) [Array(1) ['' @ ellipsis @ '']]]]'', {})"
  by (simp add: cyclicArrayHeap_def decimal.simps digit_def)

text \<open>
  C4. The claim: a collection of more than 50 elements is written as its first 50
  elements and one truncation marker. The loops over a Map and over a Set test
  \<open>++i > 50\<close> after the element is written, so they write 51 elements: of the Set of the
  numbers 0 to 51, the element 50 is written as well.
\<close>

theorem set_writes_51_elements:
  "formatValue bigSetHeap (VRef 0) 0 {} =
     Inr (''Set(52) { '' @ join '', '' (map decimal [0..<51]) @ '', '' @ ellipsis @ '' }'', {0})"
  unfolding bigSetHeap_def by code_simp

text \<open>
  C5, as stated: at every depth above 2 a composite value is written as the ellipsis
  placeholder. It fails for a Map, a Set or a generic object that is in \<open>seen\<close>: the test of
  \<open>seen\<close> comes before the test of the depth. In \<open>{ p: o, q: { r: { s: o } } }\<close> the second
  \<open>o\<close> is met at depth 3 and is written \<open>[Circular]\<close>, not \<open>{...}\<close>.
\<close>

theorem deep_visited_object_counterexample:
  \<open>formatValue deepHeap (VRef 0) 0 {} =
     Inr (''{ "p": {  }, "q": { "r": { "s": [Circular] } } }'', {3, 2, 1, 0})\<close>
  by (simp add: deepHeap_def JSON_stringify_def escapeChar_def)

text \<open>
  C5, amended: at every depth above 2, an array-like is written as its tag, its length and
  \<open>[...]\<close>; a Map, a Set and a generic object are written as \<open>Map(...)\<close>, \<open>Set(...)\<close> and
  \<open>{...}\<close>, or as their circular-reference marker when they are in \<open>seen\<close>. In no case is a
  member formatted. For every input, the text that a call at depth \<open>d\<close> returns is the
  text of a structure with at most \<open>3 - d\<close> nested levels of composite expansion: at
  most 3 for a top-level call.
\<close>

theorem deep_composite_collapses:
  "(formatValue h v depth seen = Inr (t, seen') \<longrightarrow>
      (\<exists>rt. formatTree h v depth seen = Inr (rt, seen') \<and> flatten rt = t \<and>
            levels rt \<le> 3 - depth)) \<and>
   (2 < depth \<longrightarrow>
     (h r = ArrayLike pre xs \<longrightarrow>
        formatValue h (VRef r) depth seen =
          Inr (pre @ ''Array('' @ decimal (length xs) @ '') ['' @ ellipsis @ '']'', seen)) \<and>
     (h r = MapObj es \<longrightarrow>
        formatValue h (VRef r) depth seen =
          (if r \<in> seen then Inr (''[Circular Map]'', seen)
           else Inr (''Map('' @ ellipsis @ '')'', insert r seen))) \<and>
     (h r = SetObj ys \<longrightarrow>
        formatValue h (VRef r) depth seen =
          (if r \<in> seen then Inr (''[Circular Set]'', seen)
           else Inr (''Set('' @ ellipsis @ '')'', insert r seen))) \<and>
     (h r = Object props \<longrightarrow>
        formatValue h (VRef r) depth seen =
          (if r \<in> seen then Inr (''[Circular]'', seen)
           else Inr (''{'' @ ellipsis @ ''}'', insert r seen))) \<and>
     (h r = BrokenArray pre len e \<longrightarrow>
        formatValue h (VRef r) depth seen =
          Inr (pre @ ''Array('' @ len @ '') ['' @ ellipsis @ '']'', seen)) \<and>
     (h r = BrokenMap e \<longrightarrow>
        formatValue h (VRef r) depth seen =
          (if r \<in> seen then Inr (''[Circular Map]'', seen)
           else Inr (''Map('' @ ellipsis @ '')'', insert r seen))) \<and>
     (h r = BrokenSet e \<longrightarrow>
        formatValue h (VRef r) depth seen =
          (if r \<in> seen then Inr (''[Circular Set]'', seen)
           else Inr (''Set('' @ ellipsis @ '')'', insert r seen))))"
proof -
  have "\<exists>rt. formatTree h v depth seen = Inr (rt, seen') \<and> flatten rt = t \<and> levels rt \<le> 3 - depth"
    if f: "formatValue h v depth seen = Inr (t, seen')"
  proof (cases "formatTree h v depth seen")
    case (Inl x)
    with f formatTree_refines(1)[of h v depth seen] show ?thesis by simp
  next
    case (Inr b)
    obtain rt s' where b: "b = (rt, s')" by (cases b)
    with Inr f formatTree_refines(1)[of h v depth seen] have "flatten rt = t" "s' = seen'"
      by simp_all
    with Inr b levels_bound(1)[of h v depth seen rt s'] show ?thesis by simp
  qed
  then show ?thesis by simp
qed

text \<open>
  In \<open>{ p: o, q: { r: { s: o } } }\<close> three levels are expanded, and the object at address
  3, met at depth 3, is not.
\<close>

theorem deep_composite_collapses_witness:
  \<open>formatValue deepHeap (VRef 0) 0 {} =
     Inr (''{ "p": {  }, "q": { "r": { "s": [Circular] } } }'', {3, 2, 1, 0}) \<and>
   (\<exists>rt. formatTree deepHeap (VRef 0) 0 {} = Inr (rt, {3, 2, 1, 0}) \<and>
      flatten rt = ''{ "p": {  }, "q": { "r": { "s": [Circular] } } }'' \<and> levels rt = 3) \<and>
   formatValue deepHeap (VRef 3) 3 {} = Inr (''{'' @ ellipsis @ ''}'', {3}) \<and>
   formatValue cyclicArrayHeap (VRef 0) 3 {} = Inr (''Array(1) ['' @ ellipsis @ '']'', {})\<close>
proof -
  have o: "deepHeap 3 = Object [(''s'', Normal (VRef 1))]" by (simp add: deepHeap_def)
  have a: "cyclicArrayHeap 0 = ArrayLike [] [VRef 0]" by (simp add: cyclicArrayHeap_def)
  have f: \<open>formatValue deepHeap (VRef 0) 0 {} =
     Inr (''{ "p": {  }, "q": { "r": { "s": [Circular] } } }'', {3, 2, 1, 0})\<close>
    by (simp add: deepHeap_def JSON_stringify_def escapeChar_def)
  from deep_composite_collapses[where h = deepHeap and v = "VRef 0" and depth = 0 and seen = "{}"] f
  obtain rt where rt: "formatTree deepHeap (VRef 0) 0 {} = Inr (rt, {3, 2, 1, 0})"
    \<open>flatten rt = ''{ "p": {  }, "q": { "r": { "s": [Circular] } } }''\<close> "levels rt \<le> 3"
    by (auto simp del: formatValue.simps)
  have "\<exists>rt'. formatTree deepHeap (VRef 0) 0 {} = Inr (rt', {3, 2, 1, 0}) \<and> 3 \<le> levels rt'"
    by (simp add: formatTree.simps deepHeap_def)
  with rt have "levels rt = 3" by auto
  with rt have t: \<open>\<exists>rt. formatTree deepHeap (VRef 0) 0 {} = Inr (rt, {3, 2, 1, 0}) \<and>
      flatten rt = ''{ "p": {  }, "q": { "r": { "s": [Circular] } } }'' \<and> levels rt = 3\<close>
    by blast
  have c1: "formatValue deepHeap (VRef 3) 3 {} = Inr (''{'' @ ellipsis @ ''}'', {3})"
    using deep_composite_collapses[where h = deepHeap and r = 3 and depth = 3 and seen = "{}"
        and props = "[(''s'', Normal (VRef 1))]"] o
    by (simp del: formatValue.simps)
  have c2: "formatValue cyclicArrayHeap (VRef 0) 3 {} = Inr (''Array(1) ['' @ ellipsis @ '']'', {})"
    using deep_composite_collapses[where h = cyclicArrayHeap and r = 0 and depth = 3 and seen = "{}"
        and pre = "[]" and xs = "[VRef 0]"] a
    by (simp del: formatValue.simps add: decimal.simps digit_def)
  from f t c1 c2 show ?thesis by (simp del: formatValue.simps)
qed




text \<open>
  C10, as stated: every Map, Set or generic object that occurs more than once in the
  value graph is written as the circular-reference marker at its second and all later
  occurrences. It fails when the earlier occurrence lies below the depth bound: in
  \<open>[[[[o]]], o]\<close> the first \<open>o\<close> is at depth 4 and is never formatted, so the second
  \<open>o\<close> is the first that the traversal meets and is written \<open>{  }\<close>.
\<close>

theorem buried_occurrence_counterexample:
  "formatValue buriedHeap (VRef 0) 0 {} =
     Inr (''Array(2) [Array(1) [Array(1) [Array(1) ['' @ ellipsis @ '']]], {  }]'', {4})"
  by (simp add: buriedHeap_def decimal.simps digit_def)

text \<open>
  C10, amended: within one top-level call the set \<open>seen\<close> is one set, passed from each
  call to the next in the order of the traversal, and no call removes an entry. Of the
  calls that the traversal makes on Maps, Sets and generic objects, a call writes the
  circular-reference marker exactly if the object was in the set given or an earlier
  call of the same traversal was on it, and the set returned is the set given with the
  objects of these calls. In particular, among the members that a composite formats in
  turn, a Map, a Set or a generic object that is also an earlier member is written as
  its marker: no cycle is needed. An occurrence that the traversal does not reach
  (below the depth bound or beyond the cut) is not written and leaves no entry.
\<close>

theorem traversal_marks_revisits:
  "(formatValue h v depth seen = Inr (t, seen') \<longrightarrow>
      (\<exists>rt. formatTree h v depth seen = Inr (rt, seen') \<and> flatten rt = t \<and>
            marksRight h seen (visits rt) \<and> seen' = seen \<union> visited h (visits rt))) \<and>
   (formatAll h cs depth seen = Inr (ts, seen') \<and> j < length cs \<and>
    cs ! j = Normal (VRef ob) \<and> tracked (h ob) \<and>
    (ob \<in> seen \<or> (\<exists>i<j. cs ! i = Normal (VRef ob))) \<longrightarrow>
      ts ! j = circularMarker (h ob))"
proof (intro conjI impI)
  assume "formatValue h v depth seen = Inr (t, seen')"
  from formatValue_tree[OF this] obtain rt
    where rt: "formatTree h v depth seen = Inr (rt, seen')" "flatten rt = t" by blast
  with marks_of_traversal(1)[OF rt(1)]
  show "\<exists>rt. formatTree h v depth seen = Inr (rt, seen') \<and> flatten rt = t \<and>
            marksRight h seen (visits rt) \<and> seen' = seen \<union> visited h (visits rt)"
    by blast
next
  assume a: "formatAll h cs depth seen = Inr (ts, seen') \<and> j < length cs \<and>
    cs ! j = Normal (VRef ob) \<and> tracked (h ob) \<and>
    (ob \<in> seen \<or> (\<exists>i<j. cs ! i = Normal (VRef ob)))"
  then show "ts ! j = circularMarker (h ob)"
    using later_member_marker[of h cs depth seen ts seen' j ob] by blast
qed

text \<open>
  \<open>{ a: o, b: o }\<close> shares \<open>o\<close> without any cycle: three calls are made, on the object,
  on \<open>o\<close> under \<open>a\<close>, which is entered, and on \<open>o\<close> under \<open>b\<close>, which is written
  \<open>[Circular]\<close>.
\<close>

theorem traversal_marks_revisits_witness:
  \<open>formatValue sharedHeap (VRef 0) 0 {} = Inr (''{ "a": { "x": 1 }, "b": [Circular] }'', {1, 0}) \<and>
   (\<exists>rt. formatTree sharedHeap (VRef 0) 0 {} = Inr (rt, {1, 0}) \<and>
      flatten rt = ''{ "a": { "x": 1 }, "b": [Circular] }'' \<and>
      visits rt = [(0, Entered), (1, Entered), (1, Marked)] \<and>
      marksRight sharedHeap {} (visits rt) \<and> {1, 0} = {} \<union> visited sharedHeap (visits rt)) \<and>
   formatAll sharedHeap [Normal (VRef 1), Normal (VRef 1)] 1 {0} =
     Inr ([''{ "x": 1 }'', ''[Circular]''], {1, 0}) \<and>
   [''{ "x": 1 }'', ''[Circular]''] ! 1 = circularMarker (sharedHeap 1)\<close>
proof -
  have f: \<open>formatValue sharedHeap (VRef 0) 0 {} =
      Inr (''{ "a": { "x": 1 }, "b": [Circular] }'', {1, 0})\<close>
    by (simp add: sharedHeap_def JSON_stringify_def escapeChar_def numberText_def intText_def
        decimal.simps digit_def)
  have g: \<open>formatAll sharedHeap [Normal (VRef 1), Normal (VRef 1)] 1 {0} =
     Inr ([''{ "x": 1 }'', ''[Circular]''], {1, 0})\<close>
    by (simp add: sharedHeap_def JSON_stringify_def escapeChar_def numberText_def intText_def
        decimal.simps digit_def)
  have tr: "tracked (sharedHeap 1)" by (simp add: sharedHeap_def tracked_def)
  from traversal_marks_revisits[THEN conjunct1, rule_format, OF f]
  obtain rt where rt: "formatTree sharedHeap (VRef 0) 0 {} = Inr (rt, {1, 0})"
    \<open>flatten rt = ''{ "a": { "x": 1 }, "b": [Circular] }''\<close>
    "marksRight sharedHeap {} (visits rt)" "{1, 0} = {} \<union> visited sharedHeap (visits rt)"
    by blast
  have "\<exists>rt'. formatTree sharedHeap (VRef 0) 0 {} = Inr (rt', {1, 0}) \<and>
      visits rt' = [(0, Entered), (1, Entered), (1, Marked)]"
    by (simp add: formatTree.simps sharedHeap_def)
  with rt have v: "visits rt = [(0, Entered), (1, Entered), (1, Marked)]" by auto
  have m: \<open>[''{ "x": 1 }'', ''[Circular]''] ! 1 = circularMarker (sharedHeap 1)\<close>
    using traversal_marks_revisits[THEN conjunct2, rule_format, where h = sharedHeap and depth = 1
        and seen = "{0}" and cs = "[Normal (VRef 1), Normal (VRef 1)]" and j = 1 and ob = 1
        and ts = \<open>[''{ "x": 1 }'', ''[Circular]'']\<close> and seen' = "{1, 0}"] g tr
    by (simp del: formatValue.simps formatAll.simps)
  from f g rt v m show ?thesis by (auto simp del: formatValue.simps formatAll.simps)
qed

section \<open>Properties of \<open>console.table\<close>\<close>

text \<open>
  The \<open>reduce\<close> with its \<open>Set\<close> computes the union of the keys in first-seen order, which
  lists every key once.
\<close>

lemma foldl_setAdd:
  "foldl setAdd acc ks = acc @ firstSeen (filter (\<lambda>x. x \<notin> set acc) ks)"
proof (induction ks arbitrary: acc)
  case Nil
  then show ?case by simp
next
  case (Cons k ks)
  show ?case
  proof (cases "k \<in> set acc")
    case True
    with Cons show ?thesis by (simp add: setAdd_def)
  next
    case False
    have "filter (\<lambda>x. x \<notin> set (acc @ [k])) ks = filter (\<lambda>x. x \<noteq> k) (filter (\<lambda>x. x \<notin> set acc) ks)"
      by (induction ks) auto
    with False Cons[of "acc @ [k]"] show ?thesis by (simp add: setAdd_def)
  qed
qed

lemma firstSeen_set: "set (firstSeen ks) = set ks"
proof (induction ks rule: firstSeen.induct)
  case 1 show ?case by simp
next
  case (2 k ks)
  then show ?case by auto
qed

lemma firstSeen_distinct: "distinct (firstSeen ks)"
proof (induction ks rule: firstSeen.induct)
  case 1 show ?case by simp
next
  case (2 k ks)
  then show ?case by (auto simp: firstSeen_set)
qed

lemma unionKeys_iff:
  "unionKeys h keys rows = Inr hs \<longleftrightarrow>
     (\<exists>kss. list_all2 (\<lambda>row ks. rowKeys h row = Inr ks) rows kss \<and>
        hs = foldl setAdd keys (concat kss))"
proof (induction rows arbitrary: keys)
  case Nil
  show ?case by auto
next
  case (Cons row rows)
  show ?case
  proof (cases "rowKeys h row")
    case (Inl e)
    then show ?thesis by (simp add: list_all2_Cons1)
  next
    case (Inr ks)
    then show ?thesis by (auto simp add: Cons.IH list_all2_Cons1)
  qed
qed

lemma unionKeys_union:
  "unionKeys h [] (map Existing xs) = Inr hs \<longleftrightarrow> isUnionOfKeys h xs hs"
  unfolding unionKeys_iff isUnionOfKeys_def list_all2_map1 foldl_setAdd[of "[]"]
  by simp

lemma tableHeaders_iff:
  "tableHeaders h (map Existing xs) columns = Inr hs \<longleftrightarrow> isHeaders h xs columns hs"
proof (cases columns)
  case None
  then show ?thesis by (simp only: tableHeaders_def isHeaders_def option.case unionKeys_union)
next
  case (Some cs)
  show ?thesis
  proof (cases "cs = []")
    case True
    with Some show ?thesis
      by (simp only: tableHeaders_def isHeaders_def option.case unionKeys_union simp_thms if_True if_False)
  next
    case False
    with Some show ?thesis
      by (simp only: tableHeaders_def isHeaders_def option.case simp_thms if_True if_False sum.inject)
        blast
  qed
qed

lemma formatCells_rendered:
  "formatCells h beyond row ks = Inr ts \<Longrightarrow> list_all2 (rendered h beyond row) ks ts"
proof (induction ks arbitrary: ts)
  case Nil
  then show ?case by simp
next
  case (Cons k ks)
  from Cons.prems obtain v t seen ts' where
    c: "cell h beyond row k = Normal v" and f: "formatValue h v 0 {} = Inr (t, seen)"
    and r: "formatCells h beyond row ks = Inr ts'" and e: "ts = t # ts'"
    by (auto simp del: formatValue.simps split: completion.splits sum.splits prod.splits)
  from c f have "rendered h beyond row k t" unfolding rendered_def by blast
  with Cons.IH[OF r] e show ?case by simp
qed

lemma rendered_formatCells:
  "list_all2 (rendered h beyond row) ks ts \<Longrightarrow> formatCells h beyond row ks = Inr ts"
proof (induction rule: list_all2_induct)
  case Nil
  show ?case by simp
next
  case (Cons k ks t ts)
  from Cons.hyps(1) obtain v seen
    where "cell h beyond row k = Normal v" "formatValue h v 0 {} = Inr (t, seen)"
    unfolding rendered_def by blast
  with Cons.IH show ?case by (simp del: formatValue.simps)
qed

lemma formatCells_iff:
  "formatCells h beyond row ks = Inr ts \<longleftrightarrow> list_all2 (rendered h beyond row) ks ts"
  using formatCells_rendered rendered_formatCells by blast

lemma formatRows_rendered:
  "formatRows h beyond rows hs = Inr tss \<Longrightarrow>
     list_all2 (\<lambda>row ts. list_all2 (rendered h beyond row) hs ts) rows tss"
proof (induction rows arbitrary: tss)
  case Nil
  then show ?case by simp
next
  case (Cons row rows)
  from Cons.prems obtain ts tss' where
    c: "formatCells h beyond row hs = Inr ts" and r: "formatRows h beyond rows hs = Inr tss'"
    and e: "tss = ts # tss'"
    by (auto split: sum.splits)
  with Cons.IH[OF r] formatCells_rendered[OF c] show ?case by simp
qed

lemma rendered_formatRows:
  "list_all2 (\<lambda>row ts. list_all2 (rendered h beyond row) hs ts) rows tss \<Longrightarrow>
     formatRows h beyond rows hs = Inr tss"
proof (induction rule: list_all2_induct)
  case Nil
  show ?case by simp
next
  case (Cons row rows ts tss)
  from rendered_formatCells[OF Cons.hyps(1)] Cons.IH show ?case by simp
qed

lemma formatRows_iff:
  "formatRows h beyond rows hs = Inr tss \<longleftrightarrow>
     list_all2 (\<lambda>row ts. list_all2 (rendered h beyond row) hs ts) rows tss"
  using formatRows_rendered rendered_formatRows by blast

section \<open>Claims about \<open>console.table\<close>\<close>

text \<open>
  C8, as stated: an explicit column list is used as it is when one is supplied. The test
  \<open>columns.length\<close> sets an empty list aside: with \<open>columns = []\<close> the headers are the
  union of the keys.
\<close>

theorem empty_column_list_counterexample:
  "console_table tableHeap plainLookup 0 (VRef 0) (Some []) =
     Inr (MTable [''a'', ''b''] [[''1'', ''2''], [''3'', ''4'']] 0)"
  by (simp add: console_table_def normalizeRows_def arrayElements_def tableHeap_def
      tableHeaders_def rowKeys_def ownProps_def setAdd_def cell_def
      numberText_def intText_def decimal.simps digit_def)

text \<open>
  C8, amended: a table request on an array of rows sends a table exactly when the headers
  can be determined and every cell can be read and formatted, and otherwise throws and
  sends nothing. The headers of the table are the explicit column list when one is
  supplied and is not empty, and otherwise (no list, or an empty one) the union of the
  rows' keys in first-seen order. The table has one row of cells for each element of the
  array and one cell for each header, and each cell is the text that the formatter returns
  for the value read from the row under that header: the own property of the row, or the
  inherited or non-enumerable member of that name, as read by \<open>row[h]\<close>. For
  \<open>[{a:1,b:2},{a:3,b:4}]\<close> without columns the headers are \<open>a, b\<close> and the rows \<open>1, 2\<close>
  and \<open>3, 4\<close>.
\<close>

theorem console_table_of_array:
  assumes "arrayElements h data = Inr (Some xs)"
  shows "console_table h beyond now data columns = Inr m \<longleftrightarrow>
         (\<exists>hs cells. isHeaders h xs columns hs \<and> m = MTable hs cells now \<and>
            list_all2 (\<lambda>v ts. list_all2 (rendered h beyond (Existing v)) hs ts) xs cells)"
proof -
  have "console_table h beyond now data columns = Inr m \<longleftrightarrow>
      (\<exists>hs cells. tableHeaders h (map Existing xs) columns = Inr hs \<and>
         formatRows h beyond (map Existing xs) hs = Inr cells \<and> m = MTable hs cells now)"
    using assms
    by (auto simp add: console_table_def normalizeRows_def split: sum.splits)
  then show ?thesis
    by (simp only: tableHeaders_iff formatRows_iff list_all2_map1) blast
qed

text \<open>
  The example of the specification, and the same rows with the columns \<open>b\<close>, \<open>toString\<close>
  and \<open>c\<close>: the cells of the inherited \<open>toString\<close> are the text of that function, those of
  \<open>c\<close>, which no row has, are \<open>undefined\<close>.
\<close>

theorem console_table_of_array_witness:
  "arrayElements tableHeap (VRef 0) = Inr (Some [VRef 1, VRef 2]) \<and>
   console_table tableHeap plainLookup 0 (VRef 0) None =
     Inr (MTable [''a'', ''b''] [[''1'', ''2''], [''3'', ''4'']] 0) \<and>
   isHeaders tableHeap [VRef 1, VRef 2] None [''a'', ''b''] \<and>
   list_all2 (\<lambda>v ts. list_all2 (rendered tableHeap plainLookup (Existing v)) [''a'', ''b''] ts)
     [VRef 1, VRef 2] [[''1'', ''2''], [''3'', ''4'']] \<and>
   console_table tableHeap plainLookup 0 (VRef 0) (Some [''b'', ''toString'', ''c'']) =
     Inr (MTable [''b'', ''toString'', ''c'']
            [[''2'', ''[Function toString]'', ''undefined''],
             [''4'', ''[Function toString]'', ''undefined'']] 0)"
proof -
  have arr: "arrayElements tableHeap (VRef 0) = Inr (Some [VRef 1, VRef 2])"
    by (simp add: arrayElements_def tableHeap_def)
  have run: "console_table tableHeap plainLookup 0 (VRef 0) None =
     Inr (MTable [''a'', ''b''] [[''1'', ''2''], [''3'', ''4'']] 0)"
    by (simp add: console_table_def normalizeRows_def arrayElements_def tableHeap_def
        tableHeaders_def rowKeys_def ownProps_def setAdd_def cell_def
        numberText_def intText_def decimal.simps digit_def)
  have cols: "console_table tableHeap plainLookup 0 (VRef 0) (Some [''b'', ''toString'', ''c'']) =
     Inr (MTable [''b'', ''toString'', ''c'']
            [[''2'', ''[Function toString]'', ''undefined''],
             [''4'', ''[Function toString]'', ''undefined'']] 0)"
    by (simp add: console_table_def normalizeRows_def arrayElements_def tableHeap_def
        tableHeaders_def rowKeys_def ownProps_def setAdd_def cell_def plainLookup_def
        numberText_def intText_def decimal.simps digit_def)
  from console_table_of_array[OF arr, where beyond = plainLookup and now = 0 and columns = None
      and m = "MTable [''a'', ''b''] [[''1'', ''2''], [''3'', ''4'']] 0"] run
  obtain hs cells where
    m: "MTable [''a'', ''b''] [[''1'', ''2''], [''3'', ''4'']] 0 = MTable hs cells 0"
    and hd: "isHeaders tableHeap [VRef 1, VRef 2] None hs"
    and r: "list_all2 (\<lambda>v ts. list_all2 (rendered tableHeap plainLookup (Existing v)) hs ts)
          [VRef 1, VRef 2] cells"
    by blast
  from m have hs: "hs = [''a'', ''b'']"
    and cs: "cells = [[''1'', ''2''], [''3'', ''4'']]" by simp_all
  from hd r hs cs arr run cols show ?thesis by blast
qed

section \<open>Properties of the module loader\<close>

lemma alias_entry:
  "(name, path) \<in> set aliasTable \<Longrightarrow> \<not> isLocator name \<and> map_of aliasTable name = Some path"
  by (auto simp: aliasTable_def isLocator_def isHttp_def startsWith_def lowerHTPS_def)

text \<open>
  A bare name that names a member of \<open>Object.prototype\<close> does not get the \<open>@latest\<close>
  locator: the lookup \<open>map[name]\<close> finds the inherited member.
\<close>

lemma resolveSpec_inherited_name:
  "resolveSpec ''__proto__'' = ''https://cdn.jsdelivr.net/npm/[object Object]''"
  by (simp add: resolveSpec_def trim_def isSpace_def isHttp_def startsWith_def lowerHTPS_def
      aliasTable_def inheritedText_def)

section \<open>Claims about \<open>evalCode\<close>\<close>




section \<open>Claims about the page\<close>

text \<open>
  C7, as stated: for every terminal event, Result or Fault, whose id is pending, the
  elapsed time is computed and the entry removed. The case \<open>error\<close> of the handler does
  not read \<open>msg.id\<close>: a Fault of the pending id \<open>a\<close> is shown without a time, and the entry
  stays.
\<close>

theorem fault_of_pending_id_counterexample:
  "out (onmessage 25 examplePage (MError (Some ''a'') ''boom'' 7)) = [ErrorLine ''boom'' 7] \<and>
   pending (onmessage 25 examplePage (MError (Some ''a'') ''boom'' 7)) ''a'' = Some 10"
  by (simp add: onmessage_def examplePage_def)

text \<open>
  C7, amended: for every Result whose id is pending, the page shows the result with the
  elapsed time \<open>max(0, now - startedAt)\<close> and removes the entry of that id, leaving the
  others; every Result whose id is not pending is shown without a time and the map is
  left as it is; every Fault is shown without a time, whatever its id.
\<close>

theorem onmessage_terminal:
  "(pending p i = Some startedAt \<longrightarrow>
      out (onmessage now p (MResult i f ts)) =
        out p @ [ResultLine f ts (Some (max 0 (now - startedAt)))] \<and>
      pending (onmessage now p (MResult i f ts)) = (pending p)(i := None)) \<and>
   (pending p i = None \<longrightarrow>
      out (onmessage now p (MResult i f ts)) = out p @ [ResultLine f ts None] \<and>
      pending (onmessage now p (MResult i f ts)) = pending p) \<and>
   out (onmessage now p (MError j f ts)) = out p @ [ErrorLine f ts]"
  by (simp add: onmessage_def)

theorem onmessage_terminal_witness:
  "out (onmessage 25 examplePage (MResult ''a'' ''2'' 7)) = [ResultLine ''2'' 7 (Some 15)] \<and>
   pending (onmessage 25 examplePage (MResult ''a'' ''2'' 7)) ''a'' = None \<and>
   out (onmessage 5 examplePage (MResult ''a'' ''2'' 7)) = [ResultLine ''2'' 7 (Some 0)] \<and>
   out (onmessage 25 examplePage (MResult ''b'' ''2'' 7)) = [ResultLine ''2'' 7 None] \<and>
   pending (onmessage 25 examplePage (MResult ''b'' ''2'' 7)) ''a'' = Some 10"
proof -
  have pa: "pending examplePage ''a'' = Some 10" by (simp add: examplePage_def)
  have pb: "pending examplePage ''b'' = None" by (simp add: examplePage_def)
  have o: "out examplePage = []" by (simp add: examplePage_def)
  from onmessage_terminal[where p = examplePage and i = "''a''" and startedAt = 10 and now = 25
      and f = "''2''" and ts = 7] pa o
  have a: "out (onmessage 25 examplePage (MResult ''a'' ''2'' 7)) = [ResultLine ''2'' 7 (Some 15)]"
    "pending (onmessage 25 examplePage (MResult ''a'' ''2'' 7)) ''a'' = None"
    by simp_all
  from onmessage_terminal[where p = examplePage and i = "''a''" and startedAt = 10 and now = 5
      and f = "''2''" and ts = 7] pa o
  have b: "out (onmessage 5 examplePage (MResult ''a'' ''2'' 7)) = [ResultLine ''2'' 7 (Some 0)]"
    by simp
  from onmessage_terminal[where p = examplePage and i = "''b''" and now = 25
      and f = "''2''" and ts = 7] pb pa o
  have c: "out (onmessage 25 examplePage (MResult ''b'' ''2'' 7)) = [ResultLine ''2'' 7 None]"
    "pending (onmessage 25 examplePage (MResult ''b'' ''2'' 7)) ''a'' = Some 10"
    by simp_all
  from a b c show ?thesis by simp
qed

section \<open>Claims about the module loader\<close>

text \<open>
  C9, as stated: a root-relative path is returned unchanged. \<open>resolveSpec\<close> trims the text
  first: a path followed by a space is returned without the space.
\<close>

theorem trailing_space_counterexample:
  "startsWith ''/lib.js '' ''/'' \<and> resolveSpec ''/lib.js '' = ''/lib.js''"
  by (simp add: resolveSpec_def trim_def isSpace_def isHttp_def startsWith_def lowerHTPS_def)

text \<open>
  C9, amended: \<open>resolveSpec\<close> works on the text with the white space at its ends removed.
  When that text is an absolute http(s) locator, a root-relative path or a relative path,
  it is the result. When it is one of the seven names of the alias table, the result is
  the locator the table gives for it, under the CDN. When it is any other bare name, and
  not the name of a member of \<open>Object.prototype\<close>, the result is the name followed by
  \<open>@latest\<close>, under the CDN.
\<close>

theorem resolveSpec_cases:
  "(isLocator (trim spec) \<longrightarrow> resolveSpec spec = trim spec) \<and>
   ((trim spec, path) \<in> set aliasTable \<longrightarrow>
      resolveSpec spec = ''https://cdn.jsdelivr.net/npm/'' @ path) \<and>
   (\<not> isLocator (trim spec) \<and> trim spec \<notin> fst ` set aliasTable \<and>
      trim spec \<noteq> ''__proto__'' \<and> trim spec \<notin> set inheritedFunctions \<longrightarrow>
      resolveSpec spec = ''https://cdn.jsdelivr.net/npm/'' @ trim spec @ ''@latest'')"
proof (intro conjI impI)
  assume "isLocator (trim spec)"
  then show "resolveSpec spec = trim spec"
    by (simp add: resolveSpec_def isLocator_def Let_def)
next
  assume "(trim spec, path) \<in> set aliasTable"
  from alias_entry[OF this] show "resolveSpec spec = ''https://cdn.jsdelivr.net/npm/'' @ path"
    by (simp add: resolveSpec_def isLocator_def Let_def)
next
  assume a: "\<not> isLocator (trim spec) \<and> trim spec \<notin> fst ` set aliasTable \<and>
      trim spec \<noteq> ''__proto__'' \<and> trim spec \<notin> set inheritedFunctions"
  then have "map_of aliasTable (trim spec) = None" by (simp add: map_of_eq_None_iff)
  with a show "resolveSpec spec = ''https://cdn.jsdelivr.net/npm/'' @ trim spec @ ''@latest''"
    by (simp add: resolveSpec_def isLocator_def Let_def inheritedText_def)
qed

theorem resolveSpec_cases_witness:
  "resolveSpec ''https://example.org/m.js'' = ''https://example.org/m.js'' \<and>
   resolveSpec ''HTTP://example.org/m.js'' = ''HTTP://example.org/m.js'' \<and>
   resolveSpec ''/lib.js'' = ''/lib.js'' \<and>
   resolveSpec ''./lib.js'' = ''./lib.js'' \<and>
   resolveSpec ''../lib.js'' = ''../lib.js'' \<and>
   resolveSpec ''lodash'' = ''https://cdn.jsdelivr.net/npm/lodash@latest/lodash.min.js'' \<and>
   resolveSpec ''dayjs'' = ''https://cdn.jsdelivr.net/npm/dayjs@latest/dayjs.min.js'' \<and>
   resolveSpec ''rxjs'' = ''https://cdn.jsdelivr.net/npm/rxjs@7/dist/bundles/rxjs.umd.min.js'' \<and>
   resolveSpec ''ramda'' = ''https://cdn.jsdelivr.net/npm/ramda@latest/dist/ramda.min.js'' \<and>
   resolveSpec ''underscore'' = ''https://cdn.jsdelivr.net/npm/underscore@latest/underscore-min.js'' \<and>
   resolveSpec ''decimal.js'' = ''https://cdn.jsdelivr.net/npm/decimal.js@latest/decimal.min.js'' \<and>
   resolveSpec ''papaparse'' = ''https://cdn.jsdelivr.net/npm/papaparse@latest/papaparse.min.js'' \<and>
   resolveSpec '' some-unknown-pkg'' = ''https://cdn.jsdelivr.net/npm/some-unknown-pkg@latest''"
proof -
  have "resolveSpec ''https://example.org/m.js'' = ''https://example.org/m.js''"
    using resolveSpec_cases[where spec = "''https://example.org/m.js''"]
    by (simp add: trim_def isSpace_def isLocator_def isHttp_def startsWith_def lowerHTPS_def aliasTable_def
        inheritedFunctions_def)
  moreover
  have "resolveSpec ''HTTP://example.org/m.js'' = ''HTTP://example.org/m.js''"
    using resolveSpec_cases[where spec = "''HTTP://example.org/m.js''"]
    by (simp add: trim_def isSpace_def isLocator_def isHttp_def startsWith_def lowerHTPS_def aliasTable_def
        inheritedFunctions_def)
  moreover
  have "resolveSpec ''/lib.js'' = ''/lib.js''"
    using resolveSpec_cases[where spec = "''/lib.js''"]
    by (simp add: trim_def isSpace_def isLocator_def isHttp_def startsWith_def lowerHTPS_def aliasTable_def
        inheritedFunctions_def)
  moreover
  have "resolveSpec ''./lib.js'' = ''./lib.js''"
    using resolveSpec_cases[where spec = "''./lib.js''"]
    by (simp add: trim_def isSpace_def isLocator_def isHttp_def startsWith_def lowerHTPS_def aliasTable_def
        inheritedFunctions_def)
  moreover
  have "resolveSpec ''../lib.js'' = ''../lib.js''"
    using resolveSpec_cases[where spec = "''../lib.js''"]
    by (simp add: trim_def isSpace_def isLocator_def isHttp_def startsWith_def lowerHTPS_def aliasTable_def
        inheritedFunctions_def)
  moreover
  have "resolveSpec ''lodash'' = ''https://cdn.jsdelivr.net/npm/lodash@latest/lodash.min.js''"
    using resolveSpec_cases[where spec = "''lodash''" and path = "''lodash@latest/lodash.min.js''"]
    by (simp add: trim_def isSpace_def isLocator_def isHttp_def startsWith_def lowerHTPS_def aliasTable_def
        inheritedFunctions_def)
  moreover
  have "resolveSpec ''dayjs'' = ''https://cdn.jsdelivr.net/npm/dayjs@latest/dayjs.min.js''"
    using resolveSpec_cases[where spec = "''dayjs''" and path = "''dayjs@latest/dayjs.min.js''"]
    by (simp add: trim_def isSpace_def isLocator_def isHttp_def startsWith_def lowerHTPS_def aliasTable_def
        inheritedFunctions_def)
  moreover
  have "resolveSpec ''rxjs'' = ''https://cdn.jsdelivr.net/npm/rxjs@7/dist/bundles/rxjs.umd.min.js''"
    using resolveSpec_cases[where spec = "''rxjs''" and path = "''rxjs@7/dist/bundles/rxjs.umd.min.js''"]
    by (simp add: trim_def isSpace_def isLocator_def isHttp_def startsWith_def lowerHTPS_def aliasTable_def
        inheritedFunctions_def)
  moreover
  have "resolveSpec ''ramda'' = ''https://cdn.jsdelivr.net/npm/ramda@latest/dist/ramda.min.js''"
    using resolveSpec_cases[where spec = "''ramda''" and path = "''ramda@latest/dist/ramda.min.js''"]
    by (simp add: trim_def isSpace_def isLocator_def isHttp_def startsWith_def lowerHTPS_def aliasTable_def
        inheritedFunctions_def)
  moreover
  have "resolveSpec ''underscore'' = ''https://cdn.jsdelivr.net/npm/underscore@latest/underscore-min.js''"
    using resolveSpec_cases[where spec = "''underscore''" and path = "''underscore@latest/underscore-min.js''"]
    by (simp add: trim_def isSpace_def isLocator_def isHttp_def startsWith_def lowerHTPS_def aliasTable_def
        inheritedFunctions_def)
  moreover
  have "resolveSpec ''decimal.js'' = ''https://cdn.jsdelivr.net/npm/decimal.js@latest/decimal.min.js''"
    using resolveSpec_cases[where spec = "''decimal.js''" and path = "''decimal.js@latest/decimal.min.js''"]
    by (simp add: trim_def isSpace_def isLocator_def isHttp_def startsWith_def lowerHTPS_def aliasTable_def
        inheritedFunctions_def)
  moreover
  have "resolveSpec ''papaparse'' = ''https://cdn.jsdelivr.net/npm/papaparse@latest/papaparse.min.js''"
    using resolveSpec_cases[where spec = "''papaparse''" and path = "''papaparse@latest/papaparse.min.js''"]
    by (simp add: trim_def isSpace_def isLocator_def isHttp_def startsWith_def lowerHTPS_def aliasTable_def
        inheritedFunctions_def)
  moreover
  have "resolveSpec '' some-unknown-pkg'' = ''https://cdn.jsdelivr.net/npm/some-unknown-pkg@latest''"
    using resolveSpec_cases[where spec = "'' some-unknown-pkg''"]
    by (simp add: trim_def isSpace_def isLocator_def isHttp_def startsWith_def lowerHTPS_def aliasTable_def
        inheritedFunctions_def)
  ultimately show ?thesis by blast
qed

end
